theory Spec2Isabelle
  imports Main "HOL-Library.AList"
begin

section \<open>JavaScript values, objects and errors\<close>

text \<open>
  The registry of \<^verbatim>\<open>metadata.ts\<close> attaches option objects to the prototypes of model
  classes through \<^verbatim>\<open>reflect-metadata\<close> and merges them with lodash. The only error the
  code can raise is a JavaScript \<^verbatim>\<open>TypeError\<close>; fallible functions return
  \<open>error + 'a\<close>, with \<open>Inl\<close> for the raised error.
\<close>

datatype error = TypeError

text \<open>
  The values lodash's \<^verbatim>\<open>merge\<close> treats as leaves: the primitives, and a reference to a
  function (a model class, a resolver function, a validation callback), which is
  compared and copied by identity. Numbers are integers; class instances other than
  plain objects and arrays are not modelled.
\<close>

datatype atom = Undefined | Null | Bool bool | Num int | Str string | Reference nat

text \<open>
  A value as a property holds it: a leaf, or a reference into the heap to a plain object
  or to an array. The reference says which of the two the object is, as
  \<^verbatim>\<open>Array.isArray\<close> on the value does.
\<close>

type_synonym addr = nat

datatype val = Atom atom | ObjectAt addr | ArrayAt addr

text \<open>
  An object of the heap: its own enumerable properties in insertion order. An array
  keeps its elements under the keys \<^verbatim>\<open>0\<close>, \<^verbatim>\<open>1\<close>, ... Property keys are strings;
  symbols, the rule that lists integer-like keys first, and the members an object
  inherits from \<^verbatim>\<open>Object.prototype\<close> are not modelled.
\<close>

type_synonym fields = "(string \<times> val) list"

text \<open>The property read \<^verbatim>\<open>obj[k]\<close>: a missing property reads as \<^verbatim>\<open>undefined\<close>.\<close>

definition get :: "fields \<Rightarrow> string \<Rightarrow> val" where
  "get obj k = (case map_of obj k of None \<Rightarrow> Atom Undefined | Some v \<Rightarrow> v)"

text \<open>
  An object as a caller writes it in the call of a declaring function: a leaf, or the
  literal of a plain object or of an array, with its entries. lodash reads such an
  argument and copies it; it never keeps a reference to it or to a part of it.
\<close>

datatype kind = PlainObject | ArrayObject

datatype source = Leaf atom | Node kind "(string \<times> source) list"

text \<open>The key of an array index, in decimal, and the literal \<^verbatim>\<open>[x0, x1, ...]\<close>.\<close>

fun index_key :: "nat \<Rightarrow> string" where
  "index_key n =
     (if n < 10 then [''0123456789'' ! n]
      else index_key (n div 10) @ [''0123456789'' ! (n mod 10)])"

definition array_literal :: "source list \<Rightarrow> source" where
  "array_literal xs = Node ArrayObject (zip (map index_key [0..<length xs]) xs)"

text \<open>
  The object spread \<^verbatim>\<open>{ ...a, ...b }\<close>: the properties of each source are assigned in
  turn to a new object, a later assignment to a key replacing the value in place.
  A source that is \<^verbatim>\<open>undefined\<close> contributes nothing, so it is passed as \<open>[]\<close>.
\<close>

definition assign :: "(string \<times> 'a) list \<Rightarrow> (string \<times> 'a) list \<Rightarrow> (string \<times> 'a) list" where
  "assign src obj = fold (\<lambda>(k, v). AList.update k v) src obj"

definition object_spread :: "(string \<times> 'a) list list \<Rightarrow> (string \<times> 'a) list" where
  "object_spread srcs = fold assign srcs []"

text \<open>
  The array spread \<^verbatim>\<open>[ ...x ]\<close> iterates \<open>x\<close>: on \<^verbatim>\<open>undefined\<close> it raises a
  \<^verbatim>\<open>TypeError\<close> (and so do \<^verbatim>\<open>x.slice()\<close> and \<^verbatim>\<open>x.concat(...)\<close>, which the
  compiler emits for it when it targets ES5).
\<close>

fun array_spread :: "'a list option \<Rightarrow> error + 'a list" where
  "array_spread None = Inl TypeError"
| "array_spread (Some xs) = Inr xs"

text \<open>
  The objects metadata is attached to: an identity and the prototype link
  (\<open>None\<close> for \<^verbatim>\<open>null\<close>).
\<close>

datatype object = Object (oid: nat) (proto: "object option")

text \<open>
  A function value: \<^verbatim>\<open>Function.name\<close> (\<open>None\<close> on an engine without it), the text
  \<^verbatim>\<open>toString()\<close> returns, and the \<^verbatim>\<open>prototype\<close> property, which is an object for a
  class and \<^verbatim>\<open>undefined\<close> (\<open>None\<close>) for an arrow function or a method.
\<close>

record Function =
  name :: "string option"
  source :: string
  prototype :: "object option"

section \<open>reflect-metadata\<close>

text \<open>
  \<^verbatim>\<open>Reflect.getMetadata\<close> and \<^verbatim>\<open>Reflect.hasMetadata\<close> raise a \<^verbatim>\<open>TypeError\<close> when the
  target is not an object; otherwise they look for the object's own metadata and then walk
  up the prototype chain. \<^verbatim>\<open>Reflect.defineMetadata\<close> sets the object's own metadata.
  A table holds the values of one metadata key, one entry for each object that has its own.
\<close>

fun OrdinaryGetMetadata :: "(nat \<Rightarrow> 'v option) \<Rightarrow> object \<Rightarrow> 'v option" where
  "OrdinaryGetMetadata own (Object i p) =
     (case own i of
        Some v \<Rightarrow> Some v
      | None \<Rightarrow> (case p of None \<Rightarrow> None | Some parent \<Rightarrow> OrdinaryGetMetadata own parent))"

text \<open>The identities along the prototype chain of an object, the object itself first.\<close>

fun chain :: "object \<Rightarrow> nat list" where
  "chain (Object i p) = i # (case p of None \<Rightarrow> [] | Some parent \<Rightarrow> chain parent)"

definition Reflect_getMetadata :: "(nat \<Rightarrow> 'v option) \<Rightarrow> object option \<Rightarrow> error + 'v option" where
  "Reflect_getMetadata own target =
     (case target of None \<Rightarrow> Inl TypeError | Some O' \<Rightarrow> Inr (OrdinaryGetMetadata own O'))"

definition Reflect_hasMetadata :: "(nat \<Rightarrow> 'v option) \<Rightarrow> object option \<Rightarrow> error + bool" where
  "Reflect_hasMetadata own target =
     (case target of None \<Rightarrow> Inl TypeError | Some O' \<Rightarrow> Inr (OrdinaryGetMetadata own O' \<noteq> None))"

definition Reflect_defineMetadata :: "('k \<times> 'v) list \<Rightarrow> 'v \<Rightarrow> 'k \<Rightarrow> ('k \<times> 'v) list" where
  "Reflect_defineMetadata table v k = AList.update k v table"

section \<open>The declaration store\<close>

text \<open>A validation entry \<^verbatim>\<open>{ cb, options }\<close>.\<close>

record Validation =
  cb :: atom
  options :: val

text \<open>
  Option objects and the objects they hold live in a heap, because lodash merges into
  them in place and dictionaries and resolved properties share them. A dictionary (the
  attributes or the associations of a model) maps a property key to the address of its
  option object; a dictionary is never changed once it is stored, so it is a value.
\<close>

type_synonym dict = "(string \<times> addr) list"

text \<open>
  A resolved property: \<^verbatim>\<open>new Attribute(type, name)\<close> or \<^verbatim>\<open>new Association(type, name)\<close>.
  The instance keeps the value \<^verbatim>\<open>options.type\<close> it was given, a reference when the
  type is an object.
\<close>

datatype Property = Attribute val string | Association val string

text \<open>
  The state: the heap of option objects, the property maps that \<^verbatim>\<open>getProperties\<close> has
  returned, and one metadata table for each of the four keys
  \<^verbatim>\<open>modelsafe:options\<close>, \<^verbatim>\<open>modelsafe:attrs\<close>, \<^verbatim>\<open>modelsafe:assocs\<close> and
  \<^verbatim>\<open>modelsafe:attrs:validations\<close> (the last one is kept for each property key).
\<close>

record state =
  objects :: "fields list"
  property_maps :: "(string \<times> Property) list list"
  MODEL_OPTIONS_META_KEY :: "(nat \<times> addr) list"
  MODEL_ATTRS_META_KEY :: "(nat \<times> dict) list"
  MODEL_ASSOCS_META_KEY :: "(nat \<times> dict) list"
  ATTR_VALIDATIONS_META_KEY :: "((nat \<times> string) \<times> Validation list) list"

definition empty_state :: state where
  "empty_state = \<lparr> objects = [], property_maps = [], MODEL_OPTIONS_META_KEY = [],
     MODEL_ATTRS_META_KEY = [], MODEL_ASSOCS_META_KEY = [], ATTR_VALIDATIONS_META_KEY = [] \<rparr>"

text \<open>
  Reading an address. Every address kept in a dictionary or in an object the
  dictionaries reach is allocated in the states the calls produce; an address that is
  not allocated reads as the empty object.
\<close>

definition deref :: "fields list \<Rightarrow> addr \<Rightarrow> fields" where
  "deref h a = (if a < length h then h ! a else [])"

subsection \<open>Validations\<close>

text \<open>
  \<^verbatim>\<open>defineAttributeValidation\<close>, like the two other functions that declare a property,
  takes the target object itself (a decorator passes the prototype), so
  \<^verbatim>\<open>Reflect.getMetadata\<close> does not raise; \<^verbatim>\<open>getAttributeValidations\<close> takes the class.
\<close>

definition defineAttributeValidation ::
  "state \<Rightarrow> object \<Rightarrow> string \<Rightarrow> Validation \<Rightarrow> error + state" where
  "defineAttributeValidation s ctor key validation =
     (case array_spread
             (OrdinaryGetMetadata (\<lambda>i. map_of (ATTR_VALIDATIONS_META_KEY s) (i, key)) ctor) of
        Inl e \<Rightarrow> Inl e
      | Inr existing \<Rightarrow>
          Inr (s\<lparr>ATTR_VALIDATIONS_META_KEY :=
                 Reflect_defineMetadata (ATTR_VALIDATIONS_META_KEY s)
                   (existing @ [validation]) (oid ctor, key)\<rparr>))"

definition getAttributeValidations :: "state \<Rightarrow> Function \<Rightarrow> string \<Rightarrow> error + Validation list" where
  "getAttributeValidations s ctor key =
     (case Reflect_getMetadata (\<lambda>i. map_of (ATTR_VALIDATIONS_META_KEY s) (i, key)) (prototype ctor) of
        Inl e \<Rightarrow> Inl e
      | Inr md \<Rightarrow> array_spread md)"

text \<open>The decorator \<^verbatim>\<open>validate(validation, options)\<close>.\<close>

definition validate :: "atom \<Rightarrow> val \<Rightarrow> state \<Rightarrow> object \<Rightarrow> string \<Rightarrow> error + state" where
  "validate validation opts s ctor key =
     defineAttributeValidation s ctor key \<lparr> cb = validation, options = opts \<rparr>"

subsection \<open>Model options\<close>

text \<open>The own properties a spread copies from a metadata value that is an option object.\<close>

definition own_properties :: "fields list \<Rightarrow> addr option \<Rightarrow> fields" where
  "own_properties h md = (case md of None \<Rightarrow> [] | Some a \<Rightarrow> deref h a)"

text \<open>The same for a spread source that is a value (\<open>None\<close> for \<^verbatim>\<open>undefined\<close>).\<close>

definition spread_source :: "'a list option \<Rightarrow> 'a list" where
  "spread_source md = (case md of None \<Rightarrow> [] | Some xs \<Rightarrow> xs)"

definition hasModelOptions :: "state \<Rightarrow> Function \<Rightarrow> bool" where
  "hasModelOptions s ctor =
     (case Reflect_hasMetadata (map_of (MODEL_OPTIONS_META_KEY s)) (prototype ctor) of
        Inl err \<Rightarrow> False
      | Inr b \<Rightarrow> b)"

text \<open>
  \<^verbatim>\<open>defineModelOptions\<close> builds a new object from the inherited options and the given
  ones and stores it on the prototype; without a prototype \<^verbatim>\<open>Reflect.getMetadata\<close>
  raises (and \<^verbatim>\<open>Reflect.defineMetadata\<close> would).
\<close>

definition defineModelOptions :: "state \<Rightarrow> Function \<Rightarrow> fields \<Rightarrow> error + state" where
  "defineModelOptions s ctor opts =
     (case Reflect_getMetadata (map_of (MODEL_OPTIONS_META_KEY s)) (prototype ctor) of
        Inl e \<Rightarrow> Inl e
      | Inr md \<Rightarrow>
          (case prototype ctor of
             None \<Rightarrow> Inl TypeError
           | Some target \<Rightarrow>
               Inr (s\<lparr>objects := objects s @ [object_spread [own_properties (objects s) md, opts]],
                      MODEL_OPTIONS_META_KEY :=
                        Reflect_defineMetadata (MODEL_OPTIONS_META_KEY s)
                          (length (objects s)) (oid target)\<rparr>)))"

text \<open>\<^verbatim>\<open>getModelOptions\<close> returns a new object: its address and the extended heap.\<close>

definition getModelOptions :: "state \<Rightarrow> Function \<Rightarrow> error + (addr \<times> state)" where
  "getModelOptions s ctor =
     (case Reflect_getMetadata (map_of (MODEL_OPTIONS_META_KEY s)) (prototype ctor) of
        Inl e \<Rightarrow> Inl e
      | Inr md \<Rightarrow>
          Inr (length (objects s),
               s\<lparr>objects := objects s @ [object_spread [own_properties (objects s) md]]\<rparr>))"

subsection \<open>Attributes and associations\<close>

text \<open>
  lodash's \<^verbatim>\<open>merge\<close>, as in lodash 4.17.21.

  \<^verbatim>\<open>assignMergeValue(object, key, value)\<close>: the value is assigned unless it is the one
  already there, and \<^verbatim>\<open>undefined\<close> is assigned only to a key the object does not have
  (before 4.17.5 such a key is not created, which no read \<^verbatim>\<open>obj[k]\<close> can tell apart).
\<close>

definition assignMergeValue :: "fields \<Rightarrow> string \<Rightarrow> val \<Rightarrow> fields" where
  "assignMergeValue obj k v =
     (if (v \<noteq> Atom Undefined \<and> get obj k \<noteq> v) \<or> (v = Atom Undefined \<and> map_of obj k = None)
      then AList.update k v obj else obj)"

text \<open>The same on the object at an address of the heap.\<close>

definition assignMergeValue_at :: "fields list \<Rightarrow> addr \<Rightarrow> string \<Rightarrow> val \<Rightarrow> fields list" where
  "assignMergeValue_at h a k v = h[a := assignMergeValue (deref h a) k v]"

text \<open>
  The source entries for which nothing is assigned. \<^verbatim>\<open>safeGet\<close> reads the key
  \<^verbatim>\<open>__proto__\<close> of an object, and a function under the key \<^verbatim>\<open>constructor\<close>, as
  \<^verbatim>\<open>undefined\<close>, and \<^verbatim>\<open>undefined\<close> is assigned only to a key that is not \<^verbatim>\<open>in\<close> the
  object, which both keys always are. So an object, an array or a function under
  \<^verbatim>\<open>__proto__\<close>, a function under \<^verbatim>\<open>constructor\<close>, and \<^verbatim>\<open>undefined\<close> under either key
  are passed over. Another primitive under these keys is assigned as an own property.
\<close>

fun passed_over :: "string \<Rightarrow> source \<Rightarrow> bool" where
  "passed_over k (Leaf (Reference f)) \<longleftrightarrow> k = ''__proto__'' \<or> k = ''constructor''"
| "passed_over k (Leaf Undefined) \<longleftrightarrow> k = ''__proto__'' \<or> k = ''constructor''"
| "passed_over k (Leaf v) \<longleftrightarrow> False"
| "passed_over k (Node kd es) \<longleftrightarrow> k = ''__proto__''"

text \<open>
  \<^verbatim>\<open>isArrayLikeObject\<close> on a plain object: it has a \<^verbatim>\<open>length\<close> that is a valid array
  length. \<^verbatim>\<open>copyArray\<close> makes an array of that length from its indexed properties.
\<close>

definition array_length :: "fields \<Rightarrow> nat option" where
  "array_length obj =
     (case get obj ''length'' of
        Atom (Num n) \<Rightarrow> if 0 \<le> n \<and> n \<le> 9007199254740991 then Some (nat n) else None
      | _ \<Rightarrow> None)"

definition isArrayLike :: "fields \<Rightarrow> bool" where
  "isArrayLike obj \<longleftrightarrow> array_length obj \<noteq> None"

definition copyArray :: "fields \<Rightarrow> fields" where
  "copyArray obj =
     (case array_length obj of
        Some n \<Rightarrow> map (\<lambda>i. (index_key i, get obj (index_key i))) [0..<n]
      | None \<Rightarrow> [])"

text \<open>
  The object \<^verbatim>\<open>baseMergeDeep\<close> merges a source object or array into, given the value
  the destination has under the key. A plain source goes into the value that is there
  when that is an object or an array, and into a new object otherwise. An array source
  goes into the array that is there, into a new array copied from an array-like object
  that is there, and into a new empty array otherwise. A new object is allocated at the
  end of the heap.
\<close>

fun newValue :: "fields list \<Rightarrow> val \<Rightarrow> kind \<Rightarrow> val \<times> fields list" where
  "newValue h (ObjectAt b) PlainObject = (ObjectAt b, h)"
| "newValue h (ArrayAt b) PlainObject = (ArrayAt b, h)"
| "newValue h (Atom v) PlainObject = (ObjectAt (length h), h @ [[]])"
| "newValue h (ArrayAt b) ArrayObject = (ArrayAt b, h)"
| "newValue h (ObjectAt b) ArrayObject =
     (if isArrayLike (deref h b) then (ArrayAt (length h), h @ [copyArray (deref h b)])
      else (ArrayAt (length h), h @ [[]]))"
| "newValue h (Atom v) ArrayObject = (ArrayAt (length h), h @ [[]])"

fun address :: "val \<Rightarrow> addr" where
  "address (ObjectAt b) = b"
| "address (ArrayAt b) = b"
| "address (Atom v) = 0"

text \<open>
  \<^verbatim>\<open>baseMerge(object, source)\<close>, for the object at an address and the entries of the
  source. A leaf is assigned with \<^verbatim>\<open>assignMergeValue\<close>. For an object or an array,
  \<^verbatim>\<open>baseMergeDeep\<close> picks the object to merge into, merges the entries into it, in
  place when it is the one already there, and assigns it.
\<close>

function (sequential) baseMerge :: "fields list \<Rightarrow> addr \<Rightarrow> (string \<times> source) list \<Rightarrow> fields list" where
  "baseMerge h a [] = h"
| "baseMerge h a ((k, Leaf v) # rest) =
     (if passed_over k (Leaf v) then baseMerge h a rest
      else baseMerge (assignMergeValue_at h a k (Atom v)) a rest)"
| "baseMerge h a ((k, Node kd es) # rest) =
     (if passed_over k (Node kd es) then baseMerge h a rest
      else (let (v, h1) = newValue h (get (deref h a) k) kd;
                h2 = baseMerge h1 (address v) es
            in baseMerge (assignMergeValue_at h2 a k v) a rest))"
  by pat_completeness auto

termination
  by (relation "measure (\<lambda>(h, a, es). size_list (size_prod (\<lambda>k. 0) size) es)") auto

text \<open>
  \<^verbatim>\<open>_.merge(dest, { [key]: options })\<close> on a dictionary \<open>dest\<close>. Where \<open>dest\<close> has the key,
  the option object it refers to is merged into in place, and \<open>dest\<close> keeps the reference;
  otherwise \<open>dest\<close> gets a new object, into which the options are merged. Under the key
  \<^verbatim>\<open>__proto__\<close> nothing is merged and no entry is stored.
\<close>

definition merge ::
  "fields list \<Rightarrow> dict \<Rightarrow> string \<Rightarrow> (string \<times> source) list \<Rightarrow> dict \<times> fields list" where
  "merge h dest key opts =
     (if key = ''__proto__'' then (dest, h)
      else (case map_of dest key of
              Some a \<Rightarrow> (dest, baseMerge h a opts)
            | None \<Rightarrow> (AList.update key (length h) dest, baseMerge (h @ [[]]) (length h) opts)))"

text \<open>
  \<^verbatim>\<open>defineAssociation\<close> and \<^verbatim>\<open>defineAttribute\<close>: the dictionary found for the target
  is copied, merged with the options for the key, and stored as the target's own.
\<close>

definition defineAssociation ::
  "state \<Rightarrow> object \<Rightarrow> string \<Rightarrow> (string \<times> source) list \<Rightarrow> state" where
  "defineAssociation s ctor key opts =
     (let (assocs, h) =
            merge (objects s)
              (object_spread [spread_source (OrdinaryGetMetadata (map_of (MODEL_ASSOCS_META_KEY s)) ctor)])
              key opts
      in s\<lparr>objects := h,
           MODEL_ASSOCS_META_KEY :=
             Reflect_defineMetadata (MODEL_ASSOCS_META_KEY s) assocs (oid ctor)\<rparr>)"

definition defineAttribute ::
  "state \<Rightarrow> object \<Rightarrow> string \<Rightarrow> (string \<times> source) list \<Rightarrow> state" where
  "defineAttribute s ctor key opts =
     (let (attrs, h) =
            merge (objects s)
              (object_spread [spread_source (OrdinaryGetMetadata (map_of (MODEL_ATTRS_META_KEY s)) ctor)])
              key opts
      in s\<lparr>objects := h,
           MODEL_ATTRS_META_KEY :=
             Reflect_defineMetadata (MODEL_ATTRS_META_KEY s) attrs (oid ctor)\<rparr>)"

definition getAssociations :: "state \<Rightarrow> Function \<Rightarrow> error + dict" where
  "getAssociations s ctor =
     (case Reflect_getMetadata (map_of (MODEL_ASSOCS_META_KEY s)) (prototype ctor) of
        Inl e \<Rightarrow> Inl e
      | Inr md \<Rightarrow> Inr (object_spread [spread_source md]))"

definition getAttributes :: "state \<Rightarrow> Function \<Rightarrow> error + dict" where
  "getAttributes s ctor =
     (case Reflect_getMetadata (map_of (MODEL_ATTRS_META_KEY s)) (prototype ctor) of
        Inl e \<Rightarrow> Inl e
      | Inr md \<Rightarrow> Inr (object_spread [spread_source md]))"

subsection \<open>Resolved properties\<close>

text \<open>
  Modelled from the spec: \<^verbatim>\<open>attribute.ts\<close>, with the class \<^verbatim>\<open>Attribute\<close>, is not among
  the sources. The spec (4.2) says an attribute is constructed from a type and a name and
  exposes the name as its string form.
\<close>

definition Attribute_toString :: "val \<Rightarrow> string \<Rightarrow> string" where
  "Attribute_toString type' name' = name'"

text \<open>\<^verbatim>\<open>Association.toString\<close> returns \<^verbatim>\<open>this.name\<close>.\<close>

fun toString :: "Property \<Rightarrow> string" where
  "toString (Association type' name') = name'"
| "toString (Attribute type' name') = Attribute_toString type' name'"

definition Object_keys :: "(string \<times> 'a) list \<Rightarrow> string list" where
  "Object_keys obj = map fst obj"

text \<open>
  \<^verbatim>\<open>getProperties\<close>: one loop over the keys of the attributes, one over the keys of the
  associations, each assigning \<^verbatim>\<open>props[key]\<close>; \<^verbatim>\<open>options.type\<close> is read from the option
  object in the heap. The new property map is returned by its address.
\<close>

definition getProperties :: "state \<Rightarrow> Function \<Rightarrow> error + (addr \<times> state)" where
  "getProperties s ctor =
     (case getAttributes s ctor of
        Inl e \<Rightarrow> Inl e
      | Inr attrs \<Rightarrow>
          (case getAssociations s ctor of
             Inl e \<Rightarrow> Inl e
           | Inr assocs \<Rightarrow>
               (let props = fold (\<lambda>key props.
                                AList.update key
                                  (Attribute (get (deref (objects s) (the (map_of attrs key))) ''type'') key)
                                  props)
                              (Object_keys attrs) [];
                    props = fold (\<lambda>key props.
                                AList.update key
                                  (Association (get (deref (objects s) (the (map_of assocs key))) ''type'') key)
                                  props)
                              (Object_keys assocs) props
                in Inr (length (property_maps s),
                        s\<lparr>property_maps := property_maps s @ [props]\<rparr>))))"

subsection \<open>Model names\<close>

text \<open>\<^verbatim>\<open>str.indexOf(c)\<close>, which is \<open>-1\<close> when \<open>c\<close> does not occur.\<close>

fun indexOf :: "string \<Rightarrow> char \<Rightarrow> int" where
  "indexOf [] c = - 1"
| "indexOf (x # xs) c =
     (if x = c then 0 else (let i = indexOf xs c in if i < 0 then - 1 else i + 1))"

text \<open>\<^verbatim>\<open>str.substr(start, length)\<close> for \<open>start \<ge> 0\<close>; a negative length gives the empty string.\<close>

definition substr :: "string \<Rightarrow> nat \<Rightarrow> int \<Rightarrow> string" where
  "substr str start len = take (nat len) (drop start str)"

text \<open>
  \<^verbatim>\<open>guessModelName\<close>. lodash's \<^verbatim>\<open>camelCase\<close> is a parameter. The name is falsy when it
  is \<^verbatim>\<open>undefined\<close> or empty; then the identifier is cut out of the function's text.
\<close>

definition guessModelName :: "(string \<Rightarrow> string) \<Rightarrow> Function \<Rightarrow> string" where
  "guessModelName camelCase ctor =
     (let name' = (case name ctor of None \<Rightarrow> [] | Some n \<Rightarrow> n);
          name' = (if name' = []
                   then (let str = source ctor;
                             str = drop (length ''function '') str;
                             str = substr str 0 (indexOf str CHR ''('')
                         in str)
                   else name')
      in camelCase name')"

text \<open>The decorator \<^verbatim>\<open>model(options)\<close>, where the options may be left out.\<close>

definition model :: "(string \<Rightarrow> string) \<Rightarrow> fields option \<Rightarrow> state \<Rightarrow> Function \<Rightarrow> error + state" where
  "model camelCase opts s ctor =
     defineModelOptions s ctor
       (object_spread [[(''name'', Atom (Str (guessModelName camelCase ctor)))], spread_source opts])"

subsection \<open>The other decorators\<close>

datatype AssociationType = HAS_ONE | HAS_MANY | BELONGS_TO | BELONGS_TO_MANY

text \<open>The number a TypeScript enum member stands for.\<close>

fun AssociationType_value :: "AssociationType \<Rightarrow> atom" where
  "AssociationType_value HAS_ONE = Num 0"
| "AssociationType_value HAS_MANY = Num 1"
| "AssociationType_value BELONGS_TO = Num 2"
| "AssociationType_value BELONGS_TO_MANY = Num 3"

text \<open>
  The decorators that declare a property. The type of an attribute and a default value
  are any values, written as the caller writes them; the target of an association is a
  class or a resolver function, or is left out.
\<close>

definition attr ::
  "source \<Rightarrow> (string \<times> source) list option \<Rightarrow> state \<Rightarrow> object \<Rightarrow> string \<Rightarrow> state" where
  "attr type' opts s target key =
     defineAttribute s target key (object_spread [spread_source opts, [(''type'', type')]])"

definition assoc ::
  "AssociationType \<Rightarrow> atom \<Rightarrow> (string \<times> source) list option \<Rightarrow> state \<Rightarrow> object \<Rightarrow> string \<Rightarrow> state" where
  "assoc type' target opts s ctor key =
     defineAssociation s ctor key
       (object_spread [spread_source opts, [(''type'', Leaf (AssociationType_value type'))],
                       [(''target'', Leaf target)]])"

definition defaultValue :: "source \<Rightarrow> state \<Rightarrow> object \<Rightarrow> string \<Rightarrow> state" where
  "defaultValue v s target key = defineAttribute s target key [(''defaultValue'', v)]"

definition readOnly :: "state \<Rightarrow> object \<Rightarrow> string \<Rightarrow> state" where
  "readOnly s target key = defineAttribute s target key [(''readOnly'', Leaf (Bool True))]"

definition required :: "state \<Rightarrow> object \<Rightarrow> string \<Rightarrow> state" where
  "required s target key = defineAttribute s target key [(''optional'', Leaf (Bool False))]"

definition optional :: "state \<Rightarrow> object \<Rightarrow> string \<Rightarrow> state" where
  "optional s target key = defineAttribute s target key [(''optional'', Leaf (Bool True))]"

definition primary :: "state \<Rightarrow> object \<Rightarrow> string \<Rightarrow> state" where
  "primary s target key = defineAttribute s target key [(''primary'', Leaf (Bool True))]"

definition unique :: "state \<Rightarrow> object \<Rightarrow> string \<Rightarrow> state" where
  "unique s target key = defineAttribute s target key [(''unique'', Leaf (Bool True))]"

section \<open>Sequences of calls and well-formed states\<close>

text \<open>
  A call on the registry. A call that raises leaves the state as it was: each function
  writes to the store only in its last step.
\<close>

datatype operation =
    DefineModelOptions Function fields
  | DefineAttribute object string "(string \<times> source) list"
  | DefineAssociation object string "(string \<times> source) list"
  | DefineAttributeValidation object string Validation
  | GetModelOptions Function
  | GetProperties Function

fun perform :: "operation \<Rightarrow> state \<Rightarrow> state" where
  "perform (DefineModelOptions ctor opts) s =
     (case defineModelOptions s ctor opts of Inl e \<Rightarrow> s | Inr s' \<Rightarrow> s')"
| "perform (DefineAttribute target key opts) s = defineAttribute s target key opts"
| "perform (DefineAssociation target key opts) s = defineAssociation s target key opts"
| "perform (DefineAttributeValidation target key v) s =
     (case defineAttributeValidation s target key v of Inl e \<Rightarrow> s | Inr s' \<Rightarrow> s')"
| "perform (GetModelOptions ctor) s =
     (case getModelOptions s ctor of Inl e \<Rightarrow> s | Inr (a, s') \<Rightarrow> s')"
| "perform (GetProperties ctor) s =
     (case getProperties s ctor of Inl e \<Rightarrow> s | Inr (a, s') \<Rightarrow> s')"

definition run :: "operation list \<Rightarrow> state \<Rightarrow> state" where
  "run ops s = fold perform ops s"

text \<open>The addresses the dictionaries of a state refer to.\<close>

definition table_addrs :: "(nat \<times> dict) list \<Rightarrow> addr list" where
  "table_addrs table = concat (map (\<lambda>(i, d). map snd d) table)"

definition dict_addrs :: "state \<Rightarrow> addr list" where
  "dict_addrs s = table_addrs (MODEL_ATTRS_META_KEY s) @ table_addrs (MODEL_ASSOCS_META_KEY s)"

text \<open>
  The addresses an object refers to. In a well-formed state every address in a
  dictionary is allocated, and every reference in an object of the heap is to an
  allocated object that was allocated after the object.
\<close>

fun reference :: "val \<Rightarrow> addr list" where
  "reference (ObjectAt b) = [b]"
| "reference (ArrayAt b) = [b]"
| "reference (Atom v) = []"

definition refs :: "fields \<Rightarrow> addr list" where
  "refs obj = concat (map (\<lambda>(k, v). reference v) obj)"

definition wf_state :: "state \<Rightarrow> bool" where
  "wf_state s \<longleftrightarrow>
     list_all (\<lambda>a. a < length (objects s)) (dict_addrs s) \<and>
     list_all (\<lambda>a. list_all (\<lambda>b. a < b \<and> b < length (objects s)) (refs (objects s ! a)))
       [0..<length (objects s)]"

text \<open>
  What the calls keep of this. The objects the dictionaries reach stay within a set
  \<open>A\<close> of allocated objects that is closed under reference and has no cycle: a
  reference goes to an object of higher rank.
\<close>

definition owned :: "(addr \<Rightarrow> nat) \<Rightarrow> addr set \<Rightarrow> fields list \<Rightarrow> bool" where
  "owned rank A h \<longleftrightarrow>
     (\<forall>a\<in>A. a < length h \<and> (\<forall>b\<in>set (refs (h ! a)). b \<in> A \<and> rank a < rank b))"

definition reaches :: "(addr \<Rightarrow> nat) \<Rightarrow> addr set \<Rightarrow> state \<Rightarrow> bool" where
  "reaches rank A s \<longleftrightarrow> owned rank A (objects s) \<and> set (dict_addrs s) \<subseteq> A"

text \<open>
  From one heap to a later one: the set grows by new objects only, the ranks stay, and
  the heap does not shrink. A merge into an object keeps every object that is not the
  object itself and is outside the set or of no higher rank.
\<close>

definition grows ::
  "(addr \<Rightarrow> nat) \<Rightarrow> addr set \<Rightarrow> fields list \<Rightarrow> (addr \<Rightarrow> nat) \<Rightarrow> addr set \<Rightarrow> fields list \<Rightarrow> bool" where
  "grows rank A h rank' A' h' \<longleftrightarrow>
     owned rank' A' h' \<and> A \<subseteq> A' \<and> (\<forall>c\<in>A. rank' c = rank c) \<and>
     (\<forall>c\<in>A'. c \<notin> A \<longrightarrow> length h \<le> c) \<and> length h \<le> length h'"

definition keeps :: "(addr \<Rightarrow> nat) \<Rightarrow> addr set \<Rightarrow> addr \<Rightarrow> fields list \<Rightarrow> fields list \<Rightarrow> bool" where
  "keeps rank A a h h' \<longleftrightarrow>
     (\<forall>c<length h. c \<noteq> a \<and> (c \<in> A \<longrightarrow> rank c \<le> rank a) \<longrightarrow> h' ! c = h ! c)"

text \<open>
  No declaration is found for an object: neither the object nor an object up its
  prototype chain has options, attributes or associations of its own.
\<close>

definition undeclared :: "state \<Rightarrow> object \<Rightarrow> bool" where
  "undeclared s t \<longleftrightarrow>
     list_all (\<lambda>i. map_of (MODEL_OPTIONS_META_KEY s) i = None \<and>
                   map_of (MODEL_ATTRS_META_KEY s) i = None \<and>
                   map_of (MODEL_ASSOCS_META_KEY s) i = None) (chain t)"

text \<open>
  The option object \<^verbatim>\<open>getAttributes(ctor)[key]\<close> as it is in the heap of the state.
\<close>

definition attribute_options :: "state \<Rightarrow> Function \<Rightarrow> string \<Rightarrow> fields option" where
  "attribute_options s ctor key =
     (case getAttributes s ctor of
        Inl e \<Rightarrow> None
      | Inr attrs \<Rightarrow> map_option (deref (objects s)) (map_of attrs key))"

text \<open>
  Two states are the same except for the targets of association records: the tables and
  the property maps are equal, and the heaps are equal but for the value of the field
  \<^verbatim>\<open>target\<close> in the objects an association dictionary refers to.
\<close>

definition blank_target :: "fields \<Rightarrow> fields" where
  "blank_target obj = map (\<lambda>(k, v). (k, if k = ''target'' then Atom Undefined else v)) obj"

definition assoc_addrs :: "state \<Rightarrow> addr list" where
  "assoc_addrs s = table_addrs (MODEL_ASSOCS_META_KEY s)"

definition same_except_targets :: "state \<Rightarrow> state \<Rightarrow> bool" where
  "same_except_targets s s' \<longleftrightarrow>
     property_maps s = property_maps s' \<and>
     MODEL_OPTIONS_META_KEY s = MODEL_OPTIONS_META_KEY s' \<and>
     MODEL_ATTRS_META_KEY s = MODEL_ATTRS_META_KEY s' \<and>
     MODEL_ASSOCS_META_KEY s = MODEL_ASSOCS_META_KEY s' \<and>
     ATTR_VALIDATIONS_META_KEY s = ATTR_VALIDATIONS_META_KEY s' \<and>
     length (objects s) = length (objects s') \<and>
     list_all (\<lambda>a. if a \<in> set (assoc_addrs s)
                    then blank_target (objects s ! a) = blank_target (objects s' ! a)
                    else objects s ! a = objects s' ! a)
       [0..<length (objects s)]"

section \<open>Example values\<close>

definition Object_prototype :: object where
  "Object_prototype = Object 0 None"

definition UserAccount_prototype :: object where
  "UserAccount_prototype = Object 1 (Some Object_prototype)"

definition UserAccount :: Function where
  "UserAccount = \<lparr> name = Some ''UserAccount'',
                   source = ''function UserAccount() { }'',
                   prototype = Some UserAccount_prototype \<rparr>"

text \<open>A class that extends \<open>UserAccount\<close>, and an arrow function, which has no prototype.\<close>

definition Admin_prototype :: object where
  "Admin_prototype = Object 2 (Some UserAccount_prototype)"

definition Admin :: Function where
  "Admin = \<lparr> name = Some ''Admin'', source = ''function Admin() { }'',
             prototype = Some Admin_prototype \<rparr>"

definition arrow :: Function where
  "arrow = \<lparr> name = Some [], source = ''() => 0'', prototype = None \<rparr>"

text \<open>A state in which another class has an attribute and is a model.\<close>

definition Post_prototype :: object where
  "Post_prototype = Object 7 (Some Object_prototype)"

definition Post :: Function where
  "Post = \<lparr> name = Some ''Post'', source = ''function Post() { }'',
            prototype = Some Post_prototype \<rparr>"

definition Post_state :: state where
  "Post_state =
     \<lparr> objects = [[(''type'', Atom (Str ''integer''))], [(''name'', Atom (Str ''post''))]],
       property_maps = [],
       MODEL_OPTIONS_META_KEY = [(7, 1)],
       MODEL_ATTRS_META_KEY = [(7, [(''id'', 0)])],
       MODEL_ASSOCS_META_KEY = [],
       ATTR_VALIDATIONS_META_KEY = [] \<rparr>"

text \<open>
  \<open>UserAccount\<close> with an attribute and an association under the same key, and with an
  attribute and an association under two keys, as the decorators declare them.
\<close>

definition owner_state :: state where
  "owner_state =
     assoc BELONGS_TO (Reference 9) None
       (attr (Leaf (Str ''string'')) None empty_state UserAccount_prototype ''owner'')
       UserAccount_prototype ''owner''"

definition profile_state :: state where
  "profile_state =
     assoc HAS_MANY (Reference 9) None
       (attr (Leaf (Str ''string'')) None empty_state UserAccount_prototype ''email'')
       UserAccount_prototype ''posts''"

text \<open>
  The same declarations with another resolver function as the target of the association.
\<close>

definition profile_state_other_target :: state where
  "profile_state_other_target =
     assoc HAS_MANY (Reference 10) None
       (attr (Leaf (Str ''string'')) None empty_state UserAccount_prototype ''email'')
       UserAccount_prototype ''posts''"

text \<open>\<open>UserAccount\<close> as a model, and two later declarations for it.\<close>

definition account_state :: state where
  "account_state = run [DefineModelOptions UserAccount [(''name'', Atom (Str ''userAccount''))]] profile_state"

definition later_calls :: "operation list" where
  "later_calls =
     [DefineAttribute UserAccount_prototype ''email'' [(''type'', Leaf (Str ''text''))],
      DefineModelOptions UserAccount [(''name'', Atom (Str ''account''))]]"

text \<open>
  Two attribute types that are plain objects, and \<open>UserAccount\<close> with an attribute of
  the first type.
\<close>

definition STRING :: source where
  "STRING = Node PlainObject [(''type'', Leaf (Str ''string''))]"

definition TEXT :: source where
  "TEXT = Node PlainObject [(''type'', Leaf (Str ''text''))]"

definition typed_state :: state where
  "typed_state = attr STRING None empty_state UserAccount_prototype ''email''"

text \<open>A stand-in for lodash's \<^verbatim>\<open>camelCase\<close> that agrees with it on \<^verbatim>\<open>UserAccount\<close>.\<close>

definition camelCase_example :: "string \<Rightarrow> string" where
  "camelCase_example str = (if str = ''UserAccount'' then ''userAccount'' else str)"


section \<open>Lookup through the prototype chain\<close>

lemma OrdinaryGetMetadata_None_iff:
  "OrdinaryGetMetadata own t = None \<longleftrightarrow> (\<forall>i\<in>set (chain t). own i = None)"
  by (induction own t rule: OrdinaryGetMetadata.induct) (auto split: option.splits)

lemma OrdinaryGetMetadata_Some:
  "OrdinaryGetMetadata own t = Some v \<Longrightarrow> \<exists>i\<in>set (chain t). own i = Some v"
  by (induction own t rule: OrdinaryGetMetadata.induct) (auto split: option.splits)

lemma OrdinaryGetMetadata_own:
  "own (oid t) = Some v \<Longrightarrow> OrdinaryGetMetadata own t = Some v"
  by (cases t) simp

lemma OrdinaryGetMetadata_empty [simp]: "OrdinaryGetMetadata (\<lambda>i. None) t = None"
  by (simp add: OrdinaryGetMetadata_None_iff)

lemma object_spread_Nil [simp]: "object_spread [[]] = []"
  by (simp add: object_spread_def assign_def)

section \<open>Validations\<close>

text \<open>
  Where a list of validations is stored, \<^verbatim>\<open>defineAttributeValidation\<close> appends to it and
  \<^verbatim>\<open>getAttributeValidations\<close> returns it.
\<close>

lemma defineAttributeValidation_appends:
  assumes "OrdinaryGetMetadata (\<lambda>i. map_of (ATTR_VALIDATIONS_META_KEY s) (i, key)) t = Some vs"
  shows "\<exists>s'. defineAttributeValidation s t key v = Inr s' \<and>
           getAttributeValidations s' \<lparr>name = n, source = src, prototype = Some t\<rparr> key
             = Inr (vs @ [v])"
  using assms
  by (simp add: defineAttributeValidation_def getAttributeValidations_def Reflect_getMetadata_def
       Reflect_defineMetadata_def OrdinaryGetMetadata_own update_conv')

text \<open>
  But no call stores a first list: starting from the empty registry the table of
  validations stays empty.
\<close>

lemma perform_validations:
  assumes e: "ATTR_VALIDATIONS_META_KEY s = []"
  shows "ATTR_VALIDATIONS_META_KEY (perform op s) = []"
proof (cases op)
  case (DefineModelOptions c f)
  then show ?thesis using e
    by (auto simp add: defineModelOptions_def split: sum.splits option.splits)
next
  case (DefineAttribute t k f)
  then show ?thesis using e by (simp add: defineAttribute_def Let_def split: prod.splits)
next
  case (DefineAssociation t k f)
  then show ?thesis using e by (simp add: defineAssociation_def Let_def split: prod.splits)
next
  case (DefineAttributeValidation t k v)
  have "OrdinaryGetMetadata (\<lambda>i. map_of (ATTR_VALIDATIONS_META_KEY s) (i, k)) t = None"
    by (simp add: e)
  then have "defineAttributeValidation s t k v = Inl TypeError"
    by (simp add: defineAttributeValidation_def Reflect_getMetadata_def)
  then show ?thesis using e DefineAttributeValidation by simp
next
  case (GetModelOptions c)
  then show ?thesis using e
    by (auto simp add: getModelOptions_def split: sum.splits)
next
  case (GetProperties c)
  then show ?thesis using e
    by (auto simp add: getProperties_def Let_def split: sum.splits)
qed

lemma run_validations:
  "ATTR_VALIDATIONS_META_KEY s = [] \<Longrightarrow> ATTR_VALIDATIONS_META_KEY (run ops s) = []"
  unfolding run_def
  by (induction ops arbitrary: s) (simp_all add: perform_validations)

text \<open>
  C1. The claim: \<^verbatim>\<open>getAttributeValidations(type, key)\<close> returns the accumulated entries
  in declaration order, and an empty sequence, without raising, when no validation was
  declared for the type and key. The code spreads the metadata into an array, and the
  metadata is \<^verbatim>\<open>undefined\<close> when nothing was declared: after any sequence of calls on
  the empty registry, for every function and key, the call raises a \<^verbatim>\<open>TypeError\<close>.
\<close>

theorem getAttributeValidations_raises:
  "getAttributeValidations (run ops empty_state) ctor key = Inl TypeError"
proof -
  have e: "ATTR_VALIDATIONS_META_KEY (run ops empty_state) = []"
    by (rule run_validations) (simp add: empty_state_def)
  show ?thesis
    by (cases "prototype ctor")
       (simp_all add: getAttributeValidations_def Reflect_getMetadata_def e)
qed

text \<open>
  C2. The claim: declaring \<open>V1\<close> and then \<open>V2\<close> with \<^verbatim>\<open>defineAttributeValidation\<close>
  always succeeds and yields \<open>[V1, V2]\<close>, the first call for a type and key included.
  The first call spreads the missing metadata into an array and raises, and so does
  every later one: after any sequence of calls on the empty registry, for every target,
  key and entry, the call raises a \<^verbatim>\<open>TypeError\<close> and nothing is stored.
\<close>

theorem defineAttributeValidation_raises:
  "defineAttributeValidation (run ops empty_state) target key validation = Inl TypeError"
proof -
  have e: "ATTR_VALIDATIONS_META_KEY (run ops empty_state) = []"
    by (rule run_validations) (simp add: empty_state_def)
  show ?thesis
    by (simp add: defineAttributeValidation_def Reflect_getMetadata_def e)
qed

section \<open>Reads on an undeclared type\<close>

text \<open>
  C3. The claim: for a type on which no declaration was made, \<^verbatim>\<open>getProperties\<close>
  returns an empty mapping, \<^verbatim>\<open>getModelOptions\<close> an empty record and
  \<^verbatim>\<open>hasModelOptions\<close> false, and none of the three raises, even for a foreign type.
  Only \<^verbatim>\<open>hasModelOptions\<close> catches the error of the metadata lookup. Amended: for a
  function without a prototype object \<^verbatim>\<open>hasModelOptions\<close> returns false; for a function
  with a prototype for which no declaration is found, on the prototype or up its chain,
  \<^verbatim>\<open>getProperties\<close> returns a new empty mapping, \<^verbatim>\<open>getModelOptions\<close> a new empty
  record and \<^verbatim>\<open>hasModelOptions\<close> false.
\<close>

theorem undeclared_reads:
  "(prototype ctor = None \<longrightarrow> \<not> hasModelOptions s ctor) \<and>
   (\<forall>t. prototype ctor = Some t \<and> undeclared s t \<longrightarrow>
      getProperties s ctor =
        Inr (length (property_maps s), s\<lparr>property_maps := property_maps s @ [[]]\<rparr>) \<and>
      getModelOptions s ctor =
        Inr (length (objects s), s\<lparr>objects := objects s @ [[]]\<rparr>) \<and>
      \<not> hasModelOptions s ctor)"
proof (intro conjI allI impI)
  assume "prototype ctor = None"
  then show "\<not> hasModelOptions s ctor"
    by (simp add: hasModelOptions_def Reflect_hasMetadata_def)
next
  fix t
  assume a: "prototype ctor = Some t \<and> undeclared s t"
  then have p: "prototype ctor = Some t" by simp
  from a have u: "\<forall>i\<in>set (chain t). map_of (MODEL_OPTIONS_META_KEY s) i = None \<and>
                   map_of (MODEL_ATTRS_META_KEY s) i = None \<and>
                   map_of (MODEL_ASSOCS_META_KEY s) i = None"
    by (simp add: undeclared_def list_all_iff)
  have o: "OrdinaryGetMetadata (map_of (MODEL_OPTIONS_META_KEY s)) t = None"
    using u by (simp add: OrdinaryGetMetadata_None_iff)
  have at: "OrdinaryGetMetadata (map_of (MODEL_ATTRS_META_KEY s)) t = None"
    using u by (simp add: OrdinaryGetMetadata_None_iff)
  have as: "OrdinaryGetMetadata (map_of (MODEL_ASSOCS_META_KEY s)) t = None"
    using u by (simp add: OrdinaryGetMetadata_None_iff)
  have ga: "getAttributes s ctor = Inr []"
    by (simp add: getAttributes_def Reflect_getMetadata_def p at spread_source_def)
  have gs: "getAssociations s ctor = Inr []"
    by (simp add: getAssociations_def Reflect_getMetadata_def p as spread_source_def)
  show "getProperties s ctor =
        Inr (length (property_maps s), s\<lparr>property_maps := property_maps s @ [[]]\<rparr>)"
    by (simp add: getProperties_def ga gs Object_keys_def)
  show "getModelOptions s ctor =
        Inr (length (objects s), s\<lparr>objects := objects s @ [[]]\<rparr>)"
    by (simp add: getModelOptions_def Reflect_getMetadata_def p o own_properties_def)
  show "\<not> hasModelOptions s ctor"
    by (simp add: hasModelOptions_def Reflect_hasMetadata_def p o)
qed

theorem undeclared_reads_witness:
  "\<not> hasModelOptions Post_state arrow \<and>
   prototype UserAccount = Some UserAccount_prototype \<and>
   undeclared Post_state UserAccount_prototype \<and>
   getProperties Post_state UserAccount =
     Inr (0, Post_state\<lparr>property_maps := [[]]\<rparr>) \<and>
   getModelOptions Post_state UserAccount =
     Inr (2, Post_state\<lparr>objects := objects Post_state @ [[]]\<rparr>) \<and>
   \<not> hasModelOptions Post_state UserAccount"
proof -
  have u: "undeclared Post_state UserAccount_prototype"
    by (simp add: undeclared_def Post_state_def UserAccount_prototype_def Object_prototype_def)
  have p: "prototype UserAccount = Some UserAccount_prototype"
    by (simp add: UserAccount_def)
  have a: "prototype arrow = None"
    by (simp add: arrow_def)
  have l: "length (property_maps Post_state) = 0" "length (objects Post_state) = 2"
          "property_maps Post_state = []"
    by (simp_all add: Post_state_def)
  show ?thesis
    using undeclared_reads [of arrow Post_state] undeclared_reads [of UserAccount Post_state]
      u p a l
    by simp
qed

text \<open>
  The claim fails on a function without a prototype, here an arrow function on the empty
  registry: the two other reads raise.
\<close>

theorem foreign_type_raises:
  "getProperties empty_state arrow = Inl TypeError \<and>
   getModelOptions empty_state arrow = Inl TypeError"
  by (simp add: getProperties_def getAttributes_def getModelOptions_def
        Reflect_getMetadata_def arrow_def)

text \<open>
  Declarations are inherited: a class that extends \<open>UserAccount\<close> and declares nothing
  resolves to the properties of \<open>UserAccount\<close>.
\<close>

lemma inherited_properties:
  "getProperties profile_state Admin =
     Inr (0, profile_state\<lparr>property_maps :=
               [[(''email'', Attribute (Atom (Str ''string'')) ''email''),
                 (''posts'', Association (Atom (Num 1)) ''posts'')]]\<rparr>)"
  by code_simp

section \<open>Plain objects\<close>

lemma map_of_assign:
  "map_of (assign src obj) k =
     (case map_of (rev src) k of Some v \<Rightarrow> Some v | None \<Rightarrow> map_of obj k)"
proof (induction src arbitrary: obj)
  case Nil
  show ?case by (simp add: assign_def)
next
  case (Cons p src)
  obtain k' v' where p: "p = (k', v')" by (cases p)
  have "assign (p # src) obj = assign src (AList.update k' v' obj)"
    by (simp add: assign_def p)
  then show ?case
    using Cons.IH [of "AList.update k' v' obj"]
    by (auto simp add: p update_conv' map_add_def split: option.splits)
qed

lemma map_of_rev_distinct:
  "distinct (map fst xs) \<Longrightarrow> map_of (rev xs) = map_of xs"
  by (metis distinct_rev map_of_inject_set rev_map set_rev distinct_map)

lemma map_of_fold_update:
  "map_of (fold (\<lambda>key props. AList.update key (f key) props) keys acc) k =
     (if k \<in> set keys then Some (f k) else map_of acc k)"
  by (induction keys arbitrary: acc) (auto simp add: update_conv')

lemma set_update_subset: "set (AList.update k v al) \<subseteq> insert (k, v) (set al)"
  by (induction al) auto

lemma fold_update_entries:
  assumes "\<forall>(k, v)\<in>set acc. P k v" "\<forall>k\<in>set keys. P k (f k)"
  shows "\<forall>(k, v)\<in>set (fold (\<lambda>key props. AList.update key (f key) props) keys acc). P k v"
  using assms
proof (induction keys arbitrary: acc)
  case Nil
  then show ?case by simp
next
  case (Cons a keys)
  have "\<forall>(k, v)\<in>set (AList.update a (f a) acc). P k v"
    using Cons.prems set_update_subset [of a "f a" acc] by auto
  then show ?case using Cons by simp
qed

section \<open>Model options stay\<close>

lemma options_table_perform:
  assumes "map_of (MODEL_OPTIONS_META_KEY s) i \<noteq> None"
  shows "map_of (MODEL_OPTIONS_META_KEY (perform op s)) i \<noteq> None"
proof (cases op)
  case (DefineModelOptions c f)
  then show ?thesis using assms
    by (auto simp add: defineModelOptions_def Reflect_defineMetadata_def update_conv'
          split: sum.splits option.splits)
next
  case (DefineAttribute t k f)
  then show ?thesis using assms by (simp add: defineAttribute_def Let_def split: prod.splits)
next
  case (DefineAssociation t k f)
  then show ?thesis using assms by (simp add: defineAssociation_def Let_def split: prod.splits)
next
  case (DefineAttributeValidation t k v)
  then show ?thesis using assms
    by (auto simp add: defineAttributeValidation_def split: sum.splits)
next
  case (GetModelOptions c)
  then show ?thesis using assms
    by (auto simp add: getModelOptions_def split: sum.splits)
next
  case (GetProperties c)
  then show ?thesis using assms
    by (auto simp add: getProperties_def Let_def split: sum.splits)
qed

lemma hasModelOptions_iff:
  "hasModelOptions s ctor \<longleftrightarrow>
     (\<exists>t. prototype ctor = Some t \<and> (\<exists>i\<in>set (chain t). map_of (MODEL_OPTIONS_META_KEY s) i \<noteq> None))"
  using OrdinaryGetMetadata_None_iff [of "map_of (MODEL_OPTIONS_META_KEY s)"]
  by (auto simp add: hasModelOptions_def Reflect_hasMetadata_def split: option.splits)

lemma hasModelOptions_perform:
  "hasModelOptions s ctor \<Longrightarrow> hasModelOptions (perform op s) ctor"
  unfolding hasModelOptions_iff using options_table_perform by blast

lemma hasModelOptions_run:
  "hasModelOptions s ctor \<Longrightarrow> hasModelOptions (run ops s) ctor"
  unfolding run_def
  by (induction ops arbitrary: s) (simp_all add: hasModelOptions_perform)

lemma chain_oid: "oid t \<in> set (chain t)"
  by (cases t) simp

text \<open>
  C10. For every function with a prototype and every options record, the empty one
  included, \<^verbatim>\<open>defineModelOptions\<close> succeeds, \<^verbatim>\<open>hasModelOptions\<close> is true right after
  it, and it is still true after any further sequence of calls on the registry.
\<close>

theorem defineModelOptions_hasModelOptions:
  assumes "prototype ctor = Some t"
  shows "\<exists>s'. defineModelOptions s ctor opts = Inr s' \<and> hasModelOptions s' ctor \<and>
           (\<forall>ops. hasModelOptions (run ops s') ctor)"
proof -
  obtain s' where d: "defineModelOptions s ctor opts = Inr s'"
    and t: "map_of (MODEL_OPTIONS_META_KEY s') (oid t) \<noteq> None"
    using assms
    by (simp add: defineModelOptions_def Reflect_getMetadata_def Reflect_defineMetadata_def
          update_conv')
  have h: "hasModelOptions s' ctor"
    unfolding hasModelOptions_iff using assms t chain_oid by blast
  then show ?thesis using d hasModelOptions_run by blast
qed

theorem defineModelOptions_hasModelOptions_witness:
  "prototype UserAccount = Some UserAccount_prototype \<and>
   (\<exists>s'. defineModelOptions empty_state UserAccount [] = Inr s' \<and>
      hasModelOptions s' UserAccount \<and>
      hasModelOptions
        (run [DefineAttribute UserAccount_prototype ''email'' [(''type'', Leaf (Str ''string''))],
              DefineModelOptions Post [(''name'', Atom (Str ''post''))],
              GetProperties UserAccount] s') UserAccount)"
proof -
  have p: "prototype UserAccount = Some UserAccount_prototype"
    by (simp add: UserAccount_def)
  show ?thesis
    using p defineModelOptions_hasModelOptions [OF p, of empty_state "[]"] by blast
qed

section \<open>getProperties\<close>

lemma getProperties_result:
  assumes "getAttributes s ctor = Inr attrs" "getAssociations s ctor = Inr assocs"
  shows "\<exists>props. getProperties s ctor =
            Inr (length (property_maps s), s\<lparr>property_maps := property_maps s @ [props]\<rparr>) \<and>
          (\<forall>k. map_of props k =
             (if k \<in> set (Object_keys assocs)
              then Some (Association (get (deref (objects s) (the (map_of assocs k))) ''type'') k)
              else if k \<in> set (Object_keys attrs)
              then Some (Attribute (get (deref (objects s) (the (map_of attrs k))) ''type'') k)
              else None)) \<and>
          (\<forall>(k, p)\<in>set props. toString p = k)"
proof -
  let ?f = "\<lambda>key. Attribute (get (deref (objects s) (the (map_of attrs key))) ''type'') key"
  let ?g = "\<lambda>key. Association (get (deref (objects s) (the (map_of assocs key))) ''type'') key"
  let ?p1 = "fold (\<lambda>key props. AList.update key (?f key) props) (Object_keys attrs) []"
  let ?p2 = "fold (\<lambda>key props. AList.update key (?g key) props) (Object_keys assocs) ?p1"
  have r: "getProperties s ctor =
            Inr (length (property_maps s), s\<lparr>property_maps := property_maps s @ [?p2]\<rparr>)"
    by (simp add: getProperties_def assms Let_def)
  have m: "\<forall>k. map_of ?p2 k =
             (if k \<in> set (Object_keys assocs) then Some (?g k)
              else if k \<in> set (Object_keys attrs) then Some (?f k) else None)"
    by (simp add: map_of_fold_update)
  have e1: "\<forall>(k, p)\<in>set ?p1. toString p = k"
    by (rule fold_update_entries) (simp_all add: Attribute_toString_def)
  have e2: "\<forall>(k, p)\<in>set ?p2. toString p = k"
    by (rule fold_update_entries [OF e1]) simp
  show ?thesis using r m e2 by blast
qed

text \<open>
  C4. Where a model type has an attribute and an association under the same key, the
  mapping \<^verbatim>\<open>getProperties\<close> returns has an \<open>Association\<close> at that key: the loop over the
  associations runs second and overwrites the entry.
\<close>

theorem association_wins:
  assumes "getAttributes s ctor = Inr attrs" and "getAssociations s ctor = Inr assocs"
    and "key \<in> set (Object_keys attrs)" and "key \<in> set (Object_keys assocs)"
  shows "\<exists>p s' type'. getProperties s ctor = Inr (p, s') \<and>
           map_of (property_maps s' ! p) key = Some (Association type' key)"
proof -
  obtain props where
    r: "getProperties s ctor =
          Inr (length (property_maps s), s\<lparr>property_maps := property_maps s @ [props]\<rparr>)"
    and m: "\<forall>k. map_of props k =
             (if k \<in> set (Object_keys assocs)
              then Some (Association (get (deref (objects s) (the (map_of assocs k))) ''type'') k)
              else if k \<in> set (Object_keys attrs)
              then Some (Attribute (get (deref (objects s) (the (map_of attrs k))) ''type'') k)
              else None)"
    using getProperties_result [OF assms(1,2)] by blast
  have "map_of props key =
          Some (Association (get (deref (objects s) (the (map_of assocs key))) ''type'') key)"
    using m assms(4) by simp
  then show ?thesis using r by simp
qed

lemma owner_attrs: "getAttributes owner_state UserAccount = Inr [(''owner'', 0)]"
  by code_simp
lemma owner_assocs: "getAssociations owner_state UserAccount = Inr [(''owner'', 1)]"
  by code_simp

theorem association_wins_witness:
  "getAttributes owner_state UserAccount = Inr [(''owner'', 0)] \<and>
   getAssociations owner_state UserAccount = Inr [(''owner'', 1)] \<and>
   ''owner'' \<in> set (Object_keys [(''owner'', 0::nat)]) \<and> 
   ''owner'' \<in> set (Object_keys [(''owner'', 1::nat)]) \<and>
   (\<exists>p s' type'. getProperties owner_state UserAccount = Inr (p, s') \<and>
           map_of (property_maps s' ! p) ''owner'' = Some (Association type' ''owner''))"
proof -
  have k: "''owner'' \<in> set (Object_keys [(''owner'', 0::nat)])"
          "''owner'' \<in> set (Object_keys [(''owner'', 1::nat)])"
    by (simp_all add: Object_keys_def)
  show ?thesis
    using owner_attrs owner_assocs k association_wins [OF owner_attrs owner_assocs k]
    by simp
qed

text \<open>
  C6. For every key under which an attribute or an association is declared, the mapping
  \<^verbatim>\<open>getProperties\<close> returns has a property at that key whose string form is the key
  itself; and every entry of the mapping has its key as string form.
\<close>

theorem property_toString_is_key:
  assumes "getAttributes s ctor = Inr attrs" and "getAssociations s ctor = Inr assocs"
  shows "\<exists>p s'. getProperties s ctor = Inr (p, s') \<and>
           (\<forall>key\<in>set (Object_keys attrs) \<union> set (Object_keys assocs).
              \<exists>prop. map_of (property_maps s' ! p) key = Some prop \<and> toString prop = key) \<and>
           (\<forall>(key, prop)\<in>set (property_maps s' ! p). toString prop = key)"
proof -
  obtain props where
    r: "getProperties s ctor =
          Inr (length (property_maps s), s\<lparr>property_maps := property_maps s @ [props]\<rparr>)"
    and m: "\<forall>k. map_of props k =
             (if k \<in> set (Object_keys assocs)
              then Some (Association (get (deref (objects s) (the (map_of assocs k))) ''type'') k)
              else if k \<in> set (Object_keys attrs)
              then Some (Attribute (get (deref (objects s) (the (map_of attrs k))) ''type'') k)
              else None)"
    and e: "\<forall>(k, p)\<in>set props. toString p = k"
    using getProperties_result [OF assms(1,2)] by blast
  have "\<forall>key\<in>set (Object_keys attrs) \<union> set (Object_keys assocs).
          \<exists>prop. map_of props key = Some prop \<and> toString prop = key"
    using m by (auto simp add: Attribute_toString_def)
  then show ?thesis using r e by simp
qed

lemma profile_attrs: "getAttributes profile_state UserAccount = Inr [(''email'', 0)]"
  by code_simp
lemma profile_assocs: "getAssociations profile_state UserAccount = Inr [(''posts'', 1)]"
  by code_simp

theorem property_toString_is_key_witness:
  "getAttributes profile_state UserAccount = Inr [(''email'', 0)] \<and>
   getAssociations profile_state UserAccount = Inr [(''posts'', 1)] \<and>
   (\<exists>p s'. getProperties profile_state UserAccount = Inr (p, s') \<and>
      (\<exists>prop. map_of (property_maps s' ! p) ''email'' = Some prop \<and> toString prop = ''email'') \<and>
      (\<exists>prop. map_of (property_maps s' ! p) ''posts'' = Some prop \<and> toString prop = ''posts'') \<and>
      (\<forall>(key, prop)\<in>set (property_maps s' ! p). toString prop = key))"
proof -
  have "\<exists>p s'. getProperties profile_state UserAccount = Inr (p, s') \<and>
      (\<exists>prop. map_of (property_maps s' ! p) ''posts'' = Some prop \<and> toString prop = ''posts'') \<and>
      (\<exists>prop. map_of (property_maps s' ! p) ''email'' = Some prop \<and> toString prop = ''email'') \<and>
      (\<forall>(key, prop)\<in>set (property_maps s' ! p). toString prop = key)"
    using property_toString_is_key [OF profile_attrs profile_assocs]
    by (simp add: Object_keys_def)
  then show ?thesis using profile_attrs profile_assocs by blast
qed

section \<open>The name of a model\<close>

lemma get_assign:
  "distinct (map fst src) \<Longrightarrow>
   get (assign src obj) k = (case map_of src k of Some v \<Rightarrow> v | None \<Rightarrow> get obj k)"
  by (simp add: get_def map_of_assign map_of_rev_distinct split: option.splits)

lemma indexOf_append:
  "c \<notin> set xs \<Longrightarrow> indexOf (xs @ c # ys) c = int (length xs)"
  by (induction xs) (auto simp add: Let_def)

lemma guessModelName_name:
  "name ctor = Some n \<Longrightarrow> n \<noteq> [] \<Longrightarrow> guessModelName camelCase ctor = camelCase n"
  by (simp add: guessModelName_def Let_def)

lemma guessModelName_source:
  assumes "name ctor = None \<or> name ctor = Some []"
    and "source ctor = ''function '' @ n @ CHR ''('' # rest" and "CHR ''('' \<notin> set n"
  shows "guessModelName camelCase ctor = camelCase n"
proof -
  have "drop (length ''function '') (source ctor) = n @ CHR ''('' # rest"
    using assms(2) by simp
  then have "substr (drop (length ''function '') (source ctor)) 0
               (indexOf (drop (length ''function '') (source ctor)) CHR ''('') = n"
    using indexOf_append [OF assms(3), of rest] by (simp add: substr_def)
  then show ?thesis using assms(1) 
    by (auto simp add: guessModelName_def Let_def)
qed

lemma defineModelOptions_result:
  assumes "prototype ctor = Some t"
  shows "\<exists>s1. defineModelOptions s ctor opts = Inr s1 \<and>
           objects s1 = objects s @
             [object_spread [own_properties (objects s)
                               (OrdinaryGetMetadata (map_of (MODEL_OPTIONS_META_KEY s)) t), opts]] \<and>
           OrdinaryGetMetadata (map_of (MODEL_OPTIONS_META_KEY s1)) t = Some (length (objects s))"
proof -
  define s1 where "s1 = s\<lparr>objects := objects s @
             [object_spread [own_properties (objects s)
                               (OrdinaryGetMetadata (map_of (MODEL_OPTIONS_META_KEY s)) t), opts]],
               MODEL_OPTIONS_META_KEY :=
                 Reflect_defineMetadata (MODEL_OPTIONS_META_KEY s) (length (objects s)) (oid t)\<rparr>"
  have m: "defineModelOptions s ctor opts = Inr s1"
    by (simp add: s1_def defineModelOptions_def Reflect_getMetadata_def assms)
  have l: "OrdinaryGetMetadata (map_of (MODEL_OPTIONS_META_KEY s1)) t = Some (length (objects s))"
    by (rule OrdinaryGetMetadata_own) (simp add: s1_def Reflect_defineMetadata_def update_conv')
  show ?thesis using m l by (simp add: s1_def)
qed

lemma getModelOptions_result:
  assumes "prototype ctor = Some t"
  shows "getModelOptions s ctor =
           Inr (length (objects s),
                s\<lparr>objects := objects s @
                   [object_spread [own_properties (objects s)
                      (OrdinaryGetMetadata (map_of (MODEL_OPTIONS_META_KEY s)) t)]]\<rparr>)"
  by (simp add: getModelOptions_def Reflect_getMetadata_def assms)

lemma map_of_object_spread1:
  "map_of (object_spread [a]) k = map_of (rev a) k"
  by (simp add: object_spread_def map_of_assign split: option.splits)

lemma map_of_object_spread2:
  "map_of (object_spread [a, b]) k =
     (case map_of (rev b) k of Some v \<Rightarrow> Some v | None \<Rightarrow> map_of (rev a) k)"
  by (simp add: object_spread_def map_of_assign split: option.splits)


lemma distinct_assign: "distinct (map fst obj) \<Longrightarrow> distinct (map fst (assign src obj))"
proof (induction src arbitrary: obj)
  case Nil
  then show ?case by (simp add: assign_def)
next
  case (Cons p src)
  obtain k' v' where p: "p = (k', v')" by (cases p)
  have "assign (p # src) obj = assign src (AList.update k' v' obj)"
    by (simp add: assign_def p)
  then show ?case using Cons by (simp add: distinct_update)
qed

lemma distinct_object_spread: "distinct (map fst (object_spread srcs))"
proof -
  have "distinct (map fst acc) \<Longrightarrow> distinct (map fst (fold assign srcs acc))" for acc :: "(string \<times> 'a) list"
    by (induction srcs arbitrary: acc) (simp_all add: distinct_assign)
  then show ?thesis by (simp add: object_spread_def)
qed

text \<open>
  C8. After the decorator \<^verbatim>\<open>model(options)\<close> on a class, \<^verbatim>\<open>getModelOptions\<close> returns
  a record whose name is the camel case of the class's identifier when the options have
  no name, and the name of the options when they have one. The identifier is
  \<^verbatim>\<open>Function.name\<close>, or is cut out of the function's text where the engine has no
  \<^verbatim>\<open>Function.name\<close>. An options object has each key once.
\<close>

theorem model_default_name:
  assumes "prototype ctor = Some t" and "distinct (map fst (spread_source opts))"
    and "(name ctor = Some n \<and> n \<noteq> []) \<or>
         ((name ctor = None \<or> name ctor = Some []) \<and>
          source ctor = ''function '' @ n @ CHR ''('' # rest \<and> CHR ''('' \<notin> set n)"
  shows "\<exists>s1 a s2. model camelCase opts s ctor = Inr s1 \<and>
           getModelOptions s1 ctor = Inr (a, s2) \<and>
           get (deref (objects s2) a) ''name'' =
             (case map_of (spread_source opts) ''name'' of
                None \<Rightarrow> Atom (Str (camelCase n))
              | Some v \<Rightarrow> v)"
proof -
  have gn: "guessModelName camelCase ctor = camelCase n"
    using assms(3) guessModelName_name guessModelName_source by blast
  let ?given = "object_spread [[(''name'', Atom (Str (guessModelName camelCase ctor)))], spread_source opts]"
  let ?new = "object_spread [own_properties (objects s)
                (OrdinaryGetMetadata (map_of (MODEL_OPTIONS_META_KEY s)) t), ?given]"
  obtain s1 where m: "model camelCase opts s ctor = Inr s1"
    and o: "objects s1 = objects s @ [?new]"
    and l: "OrdinaryGetMetadata (map_of (MODEL_OPTIONS_META_KEY s1)) t = Some (length (objects s))"
    using defineModelOptions_result [OF assms(1), of s ?given] by (auto simp add: model_def)
  let ?copy = "object_spread [own_properties (objects s1) (Some (length (objects s)))]"
  have g: "getModelOptions s1 ctor =
             Inr (length (objects s1), s1\<lparr>objects := objects s1 @ [?copy]\<rparr>)"
    using getModelOptions_result [OF assms(1), of s1] by (simp only: l)
  have c: "?copy = object_spread [?new]"
    by (simp add: own_properties_def deref_def o)
  have dg: "map_of ?given ''name'' =
              (case map_of (spread_source opts) ''name'' of
                 None \<Rightarrow> Some (Atom (Str (camelCase n))) | Some v \<Rightarrow> Some v)"
    by (simp add: gn map_of_object_spread2 map_of_rev_distinct [OF assms(2)]
          split: option.splits)
  have dn: "map_of ?new ''name'' = map_of ?given ''name''"
    using dg
    by (simp add: map_of_object_spread2 [of _ ?given]
          map_of_rev_distinct [OF distinct_object_spread] split: option.splits)
  have "map_of ?copy ''name'' = map_of ?given ''name''"
    by (simp only: c map_of_object_spread1 map_of_rev_distinct [OF distinct_object_spread] dn)
  then have "get (deref (objects s1 @ [?copy]) (length (objects s1))) ''name'' =
             (case map_of (spread_source opts) ''name'' of
                None \<Rightarrow> Atom (Str (camelCase n)) | Some v \<Rightarrow> v)"
    using dg by (simp add: get_def deref_def split: option.splits)
  then show ?thesis using m g by simp
qed

theorem model_default_name_witness:
  "prototype UserAccount = Some UserAccount_prototype \<and>
   name UserAccount = Some ''UserAccount'' \<and>
   distinct (map fst (spread_source (Some [(''tableName'', Atom (Str ''accounts''))]))) \<and>
   distinct (map fst (spread_source (Some [(''name'', Atom (Str ''account''))]))) \<and>
   (\<exists>s1 a s2. model camelCase_example (Some [(''tableName'', Atom (Str ''accounts''))]) empty_state UserAccount = Inr s1 \<and>
      getModelOptions s1 UserAccount = Inr (a, s2) \<and>
      get (deref (objects s2) a) ''name'' = Atom (Str ''userAccount'')) \<and>
   (\<exists>s1 a s2. model camelCase_example (Some [(''name'', Atom (Str ''account''))]) empty_state UserAccount = Inr s1 \<and>
      getModelOptions s1 UserAccount = Inr (a, s2) \<and>
      get (deref (objects s2) a) ''name'' = Atom (Str ''account''))"
proof -
  have p: "prototype UserAccount = Some UserAccount_prototype"
    and n: "(name UserAccount = Some ''UserAccount'' \<and> ''UserAccount'' \<noteq> []) \<or>
         ((name UserAccount = None \<or> name UserAccount = Some []) \<and>
          source UserAccount = ''function '' @ ''UserAccount'' @ CHR ''('' # '') { }'' \<and> CHR ''('' \<notin> set ''UserAccount'')"
    by (simp_all add: UserAccount_def)
  have d1: "distinct (map fst (spread_source (Some [(''tableName'', Atom (Str ''accounts''))])))"
    and d2: "distinct (map fst (spread_source (Some [(''name'', Atom (Str ''account''))])))"
    by (simp_all add: spread_source_def)
  show ?thesis
    using p d1 d2 model_default_name [OF p d1 n, of camelCase_example empty_state]
      model_default_name [OF p d2 n, of camelCase_example empty_state]
    by (simp add: UserAccount_def camelCase_example_def spread_source_def)
qed

section \<open>Merging into the heap\<close>

lemma deref_nth [simp]: "a < length h \<Longrightarrow> deref h a = h ! a"
  by (simp add: deref_def)

lemma get_update: "get (AList.update k v obj) f = (if f = k then v else get obj f)"
  by (simp add: get_def update_conv')

lemma get_assignMergeValue:
  "get (assignMergeValue obj k v) f = (if f = k \<and> v \<noteq> Atom Undefined then v else get obj f)"
  by (auto simp add: assignMergeValue_def get_update) (simp add: get_def)

lemma set_refs_Un: "set (refs obj) = (\<Union>p\<in>set obj. set (reference (snd p)))"
  by (simp add: refs_def case_prod_unfold)

lemma set_refs:
  "b \<in> set (refs obj) \<longleftrightarrow> (\<exists>k v. (k, v) \<in> set obj \<and> b \<in> set (reference v))"
proof
  assume "b \<in> set (refs obj)"
  then obtain p where "p \<in> set obj" "b \<in> set (reference (snd p))"
    unfolding set_refs_Un by blast
  then have "(fst p, snd p) \<in> set obj \<and> b \<in> set (reference (snd p))" by simp
  then show "\<exists>k v. (k, v) \<in> set obj \<and> b \<in> set (reference v)" by blast
next
  assume "\<exists>k v. (k, v) \<in> set obj \<and> b \<in> set (reference v)"
  then obtain k v where "(k, v) \<in> set obj" "b \<in> set (reference v)" by blast
  then have "\<exists>p\<in>set obj. b \<in> set (reference (snd p))" by force
  then show "b \<in> set (refs obj)" unfolding set_refs_Un by blast
qed


lemma refs_update: "set (refs (AList.update k v obj)) \<subseteq> set (reference v) \<union> set (refs obj)"
proof
  fix b
  assume "b \<in> set (refs (AList.update k v obj))"
  then obtain k' v' where e: "(k', v') \<in> set (AList.update k v obj)" and b: "b \<in> set (reference v')"
    unfolding set_refs by blast
  from e have "(k', v') = (k, v) \<or> (k', v') \<in> set obj"
    using set_update_subset [of k v obj] by blast
  then show "b \<in> set (reference v) \<union> set (refs obj)"
    using b set_refs [of b obj] by auto
qed

lemma refs_assignMergeValue:
  "set (refs (assignMergeValue obj k v)) \<subseteq> set (reference v) \<union> set (refs obj)"
proof (cases "assignMergeValue obj k v = obj")
  case True
  then show ?thesis by simp
next
  case False
  then have "assignMergeValue obj k v = AList.update k v obj"
    by (simp add: assignMergeValue_def split: if_splits)
  then show ?thesis using refs_update [of k v obj] by simp
qed

lemma get_refs: "b \<in> set (reference (get obj k)) \<Longrightarrow> b \<in> set (refs obj)"
proof (cases "map_of obj k")
  case None
  assume "b \<in> set (reference (get obj k))"
  then show ?thesis using None by (simp add: get_def)
next
  case (Some v)
  assume "b \<in> set (reference (get obj k))"
  then have b: "b \<in> set (reference v)" using Some by (simp add: get_def)
  have "(k, v) \<in> set obj" using Some by (rule map_of_SomeD)
  then have "\<exists>k v. (k, v) \<in> set obj \<and> b \<in> set (reference v)" using b by blast
  then show ?thesis by (simp only: set_refs)
qed

lemma copyArray_values:
  assumes "(k, v) \<in> set (copyArray obj)"
  shows "\<exists>i. v = get obj (index_key i)"
proof (cases "array_length obj")
  case None
  then show ?thesis using assms by (simp add: copyArray_def)
next
  case (Some n)
  then have "copyArray obj = map (\<lambda>i. (index_key i, get obj (index_key i))) [0..<n]"
    by (simp add: copyArray_def)
  then have "(k, v) \<in> (\<lambda>i. (index_key i, get obj (index_key i))) ` set [0..<n]"
    using assms by (simp only: set_map)
  then show ?thesis by blast
qed

lemma refs_copyArray: "set (refs (copyArray obj)) \<subseteq> set (refs obj)"
proof
  fix b
  assume "b \<in> set (refs (copyArray obj))"
  then obtain k v where e: "(k, v) \<in> set (copyArray obj)" and b: "b \<in> set (reference v)"
    unfolding set_refs by blast
  from copyArray_values [OF e] obtain i where "v = get obj (index_key i)" by blast
  then show "b \<in> set (refs obj)" using b get_refs by blast
qed

lemma length_assignMergeValue_at [simp]:
  "length (assignMergeValue_at h a k v) = length h"
  by (simp add: assignMergeValue_at_def)

lemma nth_assignMergeValue_at:
  "c < length h \<Longrightarrow>
   assignMergeValue_at h a k v ! c = (if c = a then assignMergeValue (h ! a) k v else h ! c)"
  by (simp add: assignMergeValue_at_def)

lemma ownedI:
  assumes "\<And>a. a \<in> A \<Longrightarrow> a < length h"
    and "\<And>a b. a \<in> A \<Longrightarrow> b \<in> set (refs (h ! a)) \<Longrightarrow> b \<in> A \<and> rank a < rank b"
  shows "owned rank A h"
  using assms unfolding owned_def by blast

lemma owned_length: "owned rank A h \<Longrightarrow> a \<in> A \<Longrightarrow> a < length h"
  unfolding owned_def by blast

lemma owned_refs:
  "owned rank A h \<Longrightarrow> a \<in> A \<Longrightarrow> b \<in> set (refs (h ! a)) \<Longrightarrow> b \<in> A \<and> rank a < rank b"
  unfolding owned_def by blast

lemma owned_assign:
  assumes o: "owned rank A h" and a: "a \<in> A"
    and v: "\<And>b. b \<in> set (reference v) \<Longrightarrow> b \<in> A \<and> rank a < rank b"
  shows "owned rank A (assignMergeValue_at h a k v)"
proof (rule ownedI)
  fix c assume "c \<in> A"
  then show "c < length (assignMergeValue_at h a k v)" using owned_length [OF o] by simp
next
  fix c b
  assume c: "c \<in> A" and b: "b \<in> set (refs (assignMergeValue_at h a k v ! c))"
  have cl: "c < length h" using owned_length [OF o c] .
  show "b \<in> A \<and> rank c < rank b"
  proof (cases "c = a")
    case True
    then have "b \<in> set (refs (assignMergeValue (h ! a) k v))"
      using b cl by (simp add: nth_assignMergeValue_at)
    then have "b \<in> set (reference v) \<or> b \<in> set (refs (h ! a))"
      using refs_assignMergeValue [of "h ! a" k v] by blast
    then show ?thesis using v owned_refs [OF o a] True by blast
  next
    case False
    then have "b \<in> set (refs (h ! c))" using b cl by (simp add: nth_assignMergeValue_at)
    then show ?thesis using owned_refs [OF o c] by blast
  qed
qed

lemma grows_refl: "owned rank A h \<Longrightarrow> grows rank A h rank A h"
  by (simp add: grows_def)

lemma grows_trans:
  assumes 1: "grows rank A h rank1 A1 h1" and 2: "grows rank1 A1 h1 rank2 A2 h2"
  shows "grows rank A h rank2 A2 h2"
proof -
  have o2: "owned rank2 A2 h2" and s1: "A \<subseteq> A1" and s2: "A1 \<subseteq> A2"
    and r1: "\<And>c. c \<in> A \<Longrightarrow> rank1 c = rank c" and r2: "\<And>c. c \<in> A1 \<Longrightarrow> rank2 c = rank1 c"
    and f1: "\<And>c. c \<in> A1 \<Longrightarrow> c \<notin> A \<Longrightarrow> length h \<le> c"
    and f2: "\<And>c. c \<in> A2 \<Longrightarrow> c \<notin> A1 \<Longrightarrow> length h1 \<le> c"
    and l1: "length h \<le> length h1" and l2: "length h1 \<le> length h2"
    using 1 2 unfolding grows_def by blast+
  have a: "A \<subseteq> A2" using s1 s2 by blast
  have b: "\<forall>c\<in>A. rank2 c = rank c"
  proof
    fix c assume c: "c \<in> A"
    then have "c \<in> A1" using s1 by blast
    then show "rank2 c = rank c" using r1 [OF c] r2 by simp
  qed
  have c: "\<forall>c\<in>A2. c \<notin> A \<longrightarrow> length h \<le> c"
  proof (intro ballI impI)
    fix c assume c: "c \<in> A2" "c \<notin> A"
    show "length h \<le> c"
    proof (cases "c \<in> A1")
      case True
      then show ?thesis using f1 c(2) by blast
    next
      case False
      then have "length h1 \<le> c" using f2 c(1) by blast
      then show ?thesis using l1 by simp
    qed
  qed
  have d: "length h \<le> length h2" using l1 l2 by simp
  show ?thesis unfolding grows_def using o2 a b c d by blast
qed

lemma grows_owned: "grows rank A h rank' A' h' \<Longrightarrow> owned rank' A' h'"
  by (simp add: grows_def)

lemma grows_subset: "grows rank A h rank' A' h' \<Longrightarrow> c \<in> A \<Longrightarrow> c \<in> A'"
  unfolding grows_def by blast

lemma grows_rank: "grows rank A h rank' A' h' \<Longrightarrow> c \<in> A \<Longrightarrow> rank' c = rank c"
  unfolding grows_def by blast

lemma grows_new: "grows rank A h rank' A' h' \<Longrightarrow> c \<in> A' \<Longrightarrow> c < length h \<Longrightarrow> c \<in> A"
  unfolding grows_def by (metis not_le)

lemma grows_length: "grows rank A h rank' A' h' \<Longrightarrow> length h \<le> length h'"
  by (simp add: grows_def)

lemma grows_assign:
  assumes g: "grows rank A h rank' A' h'" and a: "a \<in> A'"
    and v: "\<And>b. b \<in> set (reference v) \<Longrightarrow> b \<in> A' \<and> rank' a < rank' b"
  shows "grows rank A h rank' A' (assignMergeValue_at h' a k v)"
proof -
  have "owned rank' A' (assignMergeValue_at h' a k v)"
    using owned_assign [OF grows_owned [OF g] a v] .
  then show ?thesis using g by (simp add: grows_def)
qed

lemma fresh_grows:
  assumes o: "owned rank A h"
    and x: "\<And>b. b \<in> set (refs x) \<Longrightarrow> b \<in> A \<and> r < rank b"
  shows "grows rank A h (rank(length h := r)) (insert (length h) A) (h @ [x])"
proof -
  have lt: "\<And>c. c \<in> A \<Longrightarrow> c < length h" using owned_length [OF o] .
  have ne: "\<And>c. c \<in> A \<Longrightarrow> c \<noteq> length h" using lt by fastforce
  have "owned (rank(length h := r)) (insert (length h) A) (h @ [x])"
  proof (rule ownedI)
    fix c assume "c \<in> insert (length h) A"
    then show "c < length (h @ [x])" using lt by fastforce
  next
    fix c b
    assume c: "c \<in> insert (length h) A" and b: "b \<in> set (refs ((h @ [x]) ! c))"
    show "b \<in> insert (length h) A \<and> (rank(length h := r)) c < (rank(length h := r)) b"
    proof (cases "c = length h")
      case True
      then have "b \<in> set (refs x)" using b by simp
      then have "b \<in> A \<and> r < rank b" by (rule x)
      then show ?thesis using True ne by auto
    next
      case False
      then have cA: "c \<in> A" using c by simp
      then have "b \<in> set (refs (h ! c))" using b lt by (simp add: nth_append)
      then have "b \<in> A \<and> rank c < rank b" using owned_refs [OF o cA] by blast
      then show ?thesis using False ne by auto
    qed
  qed
  then show ?thesis using ne lt by (auto simp add: grows_def)
qed

lemma newValue_grows:
  assumes o: "owned rank A h" and a: "a \<in> A" and n: "newValue h (get (h ! a) k) kd = (v, h1)"
  shows "\<exists>rank1 A1. grows rank A h rank1 A1 h1 \<and> (\<forall>c<length h. h1 ! c = h ! c) \<and>
           reference v = [address v] \<and> address v \<in> A1 \<and> rank1 a < rank1 (address v)"
proof -
  have dv: "\<And>b. b \<in> set (reference (get (h ! a) k)) \<Longrightarrow> b \<in> A \<and> rank a < rank b"
    using get_refs owned_refs [OF o a] by blast
  have lt: "\<And>c. c \<in> A \<Longrightarrow> c < length h" using owned_length [OF o] .
  have al: "a \<noteq> length h" using lt [OF a] by simp
  have existing: ?thesis if "v = get (h ! a) k" "h1 = h" "reference v = [address v]"
  proof -
    have "address v \<in> A \<and> rank a < rank (address v)" using dv that by simp
    then show ?thesis using that grows_refl [OF o] by blast
  qed
  have fresh: ?thesis
    if "h1 = h @ [x]" "reference v = [length h]" "address v = length h"
      "\<And>b. b \<in> set (refs x) \<Longrightarrow> b \<in> A \<and> r < rank b" "rank a < r" for x r
  proof -
    have g: "grows rank A h (rank(length h := r)) (insert (length h) A) h1"
      unfolding that(1) using fresh_grows [OF o that(4)] .
    have "\<forall>c<length h. h1 ! c = h ! c" by (simp add: that(1) nth_append)
    moreover have "(rank(length h := r)) a < (rank(length h := r)) (address v)"
      using al that(3,5) by simp
    ultimately show ?thesis using g that(2,3) by (metis insertI1)
  qed
  show ?thesis
  proof (cases "get (h ! a) k")
    case (Atom x)
    have e: "\<And>b. b \<in> set (refs []) \<Longrightarrow> b \<in> A \<and> Suc (rank a) < rank b"
      by (simp add: refs_def)
    show ?thesis
    proof (cases kd)
      case PlainObject
      then show ?thesis using n Atom by (intro fresh [OF _ _ _ e]) auto
    next
      case ArrayObject
      then show ?thesis using n Atom by (intro fresh [OF _ _ _ e]) auto
    qed
  next
    case (ArrayAt b)
    have "newValue h (ArrayAt b) kd = (ArrayAt b, h)" by (cases kd) simp_all
    then have vh: "v = ArrayAt b" "h1 = h" using n ArrayAt by simp_all
    have "v = get (h ! a) k" "h1 = h" "reference v = [address v]"
      by (simp_all add: vh ArrayAt)
    then show ?thesis by (rule existing)
  next
    case (ObjectAt b)
    have bA: "b \<in> A" and br: "rank a < rank b" using dv ObjectAt by simp_all
    show ?thesis
    proof (cases kd)
      case PlainObject
      then have vh: "v = ObjectAt b" "h1 = h" using n ObjectAt by simp_all
      have "v = get (h ! a) k" "h1 = h" "reference v = [address v]"
        by (simp_all add: vh ObjectAt)
      then show ?thesis by (rule existing)
    next
      case ArrayObject
      have e: "\<And>c. c \<in> set (refs []) \<Longrightarrow> c \<in> A \<and> Suc (rank a) < rank c"
        by (simp add: refs_def)
      have cp: "\<And>c. c \<in> set (refs (copyArray (deref h b))) \<Longrightarrow> c \<in> A \<and> rank b < rank c"
        using refs_copyArray [of "h ! b"] owned_refs [OF o bA] lt [OF bA] by auto
      show ?thesis
      proof (cases "isArrayLike (deref h b)")
        case True
        then show ?thesis using n ObjectAt ArrayObject
          by (intro fresh [OF _ _ _ cp br]) auto
      next
        case False
        then show ?thesis using n ObjectAt ArrayObject
          by (intro fresh [OF _ _ _ e]) auto
      qed
    qed
  qed
qed

lemma keeps_seq:
  assumes g1: "grows rank A h rank1 A1 h1" and k1: "keeps rank A a h h1" and a: "a \<in> A"
    and k2: "keeps rank1 A1 a h1 h2"
  shows "keeps rank A a h h2"
  unfolding keeps_def
proof (intro allI impI)
  fix c
  assume c: "c < length h" and f: "c \<noteq> a \<and> (c \<in> A \<longrightarrow> rank c \<le> rank a)"
  have 1: "h1 ! c = h ! c" using k1 c f unfolding keeps_def by blast
  have l: "c < length h1" using c grows_length [OF g1] by simp
  have "c \<in> A1 \<longrightarrow> rank1 c \<le> rank1 a"
  proof
    assume "c \<in> A1"
    then have "c \<in> A" using grows_new [OF g1] c by blast
    then show "rank1 c \<le> rank1 a" using f grows_rank [OF g1] a by simp
  qed
  then have "h2 ! c = h1 ! c" using k2 l f unfolding keeps_def by blast
  then show "h2 ! c = h ! c" using 1 by simp
qed

lemma keeps_nested:
  assumes g1: "grows rank A h rank1 A1 h1" and same: "\<forall>c<length h. h1 ! c = h ! c"
    and a: "a \<in> A" and b: "b \<in> A1" and r: "rank1 a < rank1 b"
    and k2: "keeps rank1 A1 b h1 h2"
    and c: "c < length h" and f: "c \<in> A \<longrightarrow> rank c \<le> rank a"
  shows "h2 ! c = h ! c"
proof -
  have l: "c < length h1" using c grows_length [OF g1] by simp
  have cr: "c \<in> A1 \<longrightarrow> rank1 c \<le> rank1 a"
  proof
    assume "c \<in> A1"
    then have "c \<in> A" using grows_new [OF g1] c by blast
    then show "rank1 c \<le> rank1 a" using f grows_rank [OF g1] a by simp
  qed
  have "c \<noteq> b" using cr b r by auto
  moreover have "c \<in> A1 \<longrightarrow> rank1 c \<le> rank1 b" using cr r by auto
  ultimately have "h2 ! c = h1 ! c" using k2 l unfolding keeps_def by blast
  then show ?thesis using same c by simp
qed

lemma leaf_step:
  assumes o: "owned rank A h" and a: "a \<in> A"
  shows "grows rank A h rank A (assignMergeValue_at h a k (Atom v))"
    and "keeps rank A a h (assignMergeValue_at h a k (Atom v))"
    and "get (assignMergeValue_at h a k (Atom v) ! a) f =
           (if f = k \<and> v \<noteq> Undefined then Atom v else get (h ! a) f)"
proof -
  have l: "a < length h" using owned_length [OF o a] .
  show "grows rank A h rank A (assignMergeValue_at h a k (Atom v))"
    by (rule grows_assign [OF grows_refl [OF o] a]) simp
  show "keeps rank A a h (assignMergeValue_at h a k (Atom v))"
    by (simp add: keeps_def nth_assignMergeValue_at)
  show "get (assignMergeValue_at h a k (Atom v) ! a) f =
           (if f = k \<and> v \<noteq> Undefined then Atom v else get (h ! a) f)"
    using l by (simp add: nth_assignMergeValue_at get_assignMergeValue)
qed

lemma node_step:
  assumes o: "owned rank A h" and a: "a \<in> A"
    and n: "newValue h (get (h ! a) k) kd = (v, h1)"
    and nested: "\<And>rank1 A1. owned rank1 A1 h1 \<Longrightarrow> address v \<in> A1 \<Longrightarrow>
       \<exists>rank2 A2. grows rank1 A1 h1 rank2 A2 h2 \<and> keeps rank1 A1 (address v) h1 h2"
  shows "\<exists>rank3 A3. grows rank A h rank3 A3 (assignMergeValue_at h2 a k v) \<and>
           keeps rank A a h (assignMergeValue_at h2 a k v) \<and>
           (\<forall>f. get (assignMergeValue_at h2 a k v ! a) f = (if f = k then v else get (h ! a) f))"
proof -
  from newValue_grows [OF o a n] obtain rank1 A1 where
    g1: "grows rank A h rank1 A1 h1" and same: "\<forall>c<length h. h1 ! c = h ! c"
    and rv: "reference v = [address v]" and bA1: "address v \<in> A1"
    and r: "rank1 a < rank1 (address v)" by blast
  have o1: "owned rank1 A1 h1" using g1 by (rule grows_owned)
  from nested [OF o1 bA1] obtain rank2 A2 where
    g2: "grows rank1 A1 h1 rank2 A2 h2" and k2: "keeps rank1 A1 (address v) h1 h2" by blast
  have g12: "grows rank A h rank2 A2 h2" using grows_trans [OF g1 g2] .
  have aA1: "a \<in> A1" using grows_subset [OF g1 a] .
  have aA2: "a \<in> A2" using grows_subset [OF g12 a] .
  have bA2: "address v \<in> A2" using grows_subset [OF g2 bA1] .
  have r2: "rank2 a < rank2 (address v)"
    using r grows_rank [OF g2 aA1] grows_rank [OF g2 bA1] by simp
  have g3: "grows rank A h rank2 A2 (assignMergeValue_at h2 a k v)"
    by (rule grows_assign [OF g12 aA2]) (simp add: rv bA2 r2)
  have l: "a < length h" using owned_length [OF o a] .
  have l2: "length h \<le> length h2" using grows_length [OF g12] .
  have kn: "\<And>c. c < length h \<Longrightarrow> c \<in> A \<longrightarrow> rank c \<le> rank a \<Longrightarrow> h2 ! c = h ! c"
    using keeps_nested [OF g1 same a bA1 r k2] .
  have k3: "keeps rank A a h (assignMergeValue_at h2 a k v)"
    unfolding keeps_def
  proof (intro allI impI)
    fix c assume c: "c < length h" and f: "c \<noteq> a \<and> (c \<in> A \<longrightarrow> rank c \<le> rank a)"
    have "assignMergeValue_at h2 a k v ! c = h2 ! c"
      using c l2 f by (simp add: nth_assignMergeValue_at)
    then show "assignMergeValue_at h2 a k v ! c = h ! c" using kn [OF c] f by simp
  qed
  have ha: "h2 ! a = h ! a" using kn [OF l] by simp
  have nu: "v \<noteq> Atom Undefined" using rv by auto
  have "\<forall>f. get (assignMergeValue_at h2 a k v ! a) f = (if f = k then v else get (h ! a) f)"
    using l l2 nu by (simp add: nth_assignMergeValue_at get_assignMergeValue ha)
  then show ?thesis using g3 k3 by blast
qed

lemma baseMerge_grows:
  assumes "owned rank A h" and "a \<in> A"
  shows "\<exists>rank' A'. grows rank A h rank' A' (baseMerge h a es) \<and>
           keeps rank A a h (baseMerge h a es) \<and>
           (\<forall>f. f \<notin> fst ` set es \<longrightarrow> get (baseMerge h a es ! a) f = get (h ! a) f)"
  using assms
proof (induction h a es arbitrary: rank A rule: baseMerge.induct)
  case (1 h a)
  have "grows rank A h rank A h" using "1.prems"(1) by (rule grows_refl)
  moreover have "keeps rank A a h h" by (simp add: keeps_def)
  ultimately show ?case by auto
next
  case (2 h a k v rest)
  show ?case
  proof (cases "passed_over k (Leaf v)")
    case True
    from "2.IH"(1) [OF True "2.prems"] obtain rank' A' where
      "grows rank A h rank' A' (baseMerge h a rest)" "keeps rank A a h (baseMerge h a rest)"
      "\<forall>f. f \<notin> fst ` set rest \<longrightarrow> get (baseMerge h a rest ! a) f = get (h ! a) f" by blast
    then show ?thesis using True by auto
  next
    case False
    let ?h1 = "assignMergeValue_at h a k (Atom v)"
    note s = leaf_step [OF "2.prems", of k v]
    have o1: "owned rank A ?h1" using s(1) by (rule grows_owned)
    from "2.IH"(2) [OF False o1 "2.prems"(2)] obtain rank' A' where
      g: "grows rank A ?h1 rank' A' (baseMerge ?h1 a rest)"
      and k: "keeps rank A a ?h1 (baseMerge ?h1 a rest)"
      and f: "\<forall>f. f \<notin> fst ` set rest \<longrightarrow> get (baseMerge ?h1 a rest ! a) f = get (?h1 ! a) f"
      by blast
    have e: "baseMerge h a ((k, Leaf v) # rest) = baseMerge ?h1 a rest" using False by simp
    have "grows rank A h rank' A' (baseMerge ?h1 a rest)" using grows_trans [OF s(1) g] .
    moreover have "keeps rank A a h (baseMerge ?h1 a rest)"
      using keeps_seq [OF s(1) s(2) "2.prems"(2) k] .
    moreover have "\<forall>f. f \<notin> fst ` set ((k, Leaf v) # rest) \<longrightarrow>
        get (baseMerge ?h1 a rest ! a) f = get (h ! a) f"
      using f s(3) by simp
    ultimately show ?thesis unfolding e by blast
  qed
next
  case (3 h a k kd es rest)
  show ?case
  proof (cases "passed_over k (Node kd es)")
    case True
    from "3.IH"(1) [OF True "3.prems"] obtain rank' A' where
      "grows rank A h rank' A' (baseMerge h a rest)" "keeps rank A a h (baseMerge h a rest)"
      "\<forall>f. f \<notin> fst ` set rest \<longrightarrow> get (baseMerge h a rest ! a) f = get (h ! a) f" by blast
    then show ?thesis using True by auto
  next
    case False
    have l: "a < length h" using owned_length [OF "3.prems"] .
    obtain v h1 where n: "newValue h (get (deref h a) k) kd = (v, h1)"
      by (cases "newValue h (get (deref h a) k) kd")
    let ?h2 = "baseMerge h1 (address v) es"
    let ?h3 = "assignMergeValue_at ?h2 a k v"
    have n': "newValue h (get (h ! a) k) kd = (v, h1)" using n l by simp
    have nested: "\<exists>rank2 A2. grows rank1 A1 h1 rank2 A2 ?h2 \<and> keeps rank1 A1 (address v) h1 ?h2"
      if "owned rank1 A1 h1" "address v \<in> A1" for rank1 A1
      using "3.IH"(2) [OF False refl n [symmetric] that] by blast
    from node_step [OF "3.prems" n' nested] obtain rank3 A3 where
      g3: "grows rank A h rank3 A3 ?h3" and k3: "keeps rank A a h ?h3"
      and f3: "\<forall>f. get (?h3 ! a) f = (if f = k then v else get (h ! a) f)" by blast
    have o3: "owned rank3 A3 ?h3" using g3 by (rule grows_owned)
    have a3: "a \<in> A3" using grows_subset [OF g3 "3.prems"(2)] .
    from "3.IH"(3) [OF False refl n [symmetric] refl o3 a3] obtain rank' A' where
      g: "grows rank3 A3 ?h3 rank' A' (baseMerge ?h3 a rest)"
      and k: "keeps rank3 A3 a ?h3 (baseMerge ?h3 a rest)"
      and f: "\<forall>f. f \<notin> fst ` set rest \<longrightarrow> get (baseMerge ?h3 a rest ! a) f = get (?h3 ! a) f"
      by blast
    have e: "baseMerge h a ((k, Node kd es) # rest) = baseMerge ?h3 a rest"
      using False n by simp
    have "grows rank A h rank' A' (baseMerge ?h3 a rest)" using grows_trans [OF g3 g] .
    moreover have "keeps rank A a h (baseMerge ?h3 a rest)"
      using keeps_seq [OF g3 k3 "3.prems"(2) k] .
    moreover have "\<forall>f. f \<notin> fst ` set ((k, Node kd es) # rest) \<longrightarrow>
        get (baseMerge ?h3 a rest ! a) f = get (h ! a) f"
      using f f3 by simp
    ultimately show ?thesis unfolding e by blast
  qed
qed





section \<open>Dictionaries and the heap\<close>

lemma set_assign_subset: "set (assign src obj) \<subseteq> set src \<union> set obj"
proof (induction src arbitrary: obj)
  case Nil
  show ?case by (simp add: assign_def)
next
  case (Cons p src)
  obtain k' v' where p: "p = (k', v')" by (cases p)
  have "assign (p # src) obj = assign src (AList.update k' v' obj)"
    by (simp add: assign_def p)
  then show ?case
    using Cons.IH [of "AList.update k' v' obj"] set_update_subset [of k' v' obj]
    by (auto simp add: p)
qed

lemma set_object_spread1: "set (object_spread [d]) \<subseteq> set d"
  using set_assign_subset [of d "[]"] by (simp add: object_spread_def)


lemma set_table_addrs: "set (table_addrs table) = (\<Union>p\<in>set table. snd ` set (snd p))"
  by (simp add: table_addrs_def case_prod_unfold)

lemma table_addrs_member:
  "(i, d) \<in> set table \<Longrightarrow> snd ` set d \<subseteq> set (table_addrs table)"
  unfolding set_table_addrs by force

lemma table_addrs_update:
  "set (table_addrs (AList.update i d table)) \<subseteq> snd ` set d \<union> set (table_addrs table)"
proof
  fix a
  assume "a \<in> set (table_addrs (AList.update i d table))"
  then obtain p where p: "p \<in> set (AList.update i d table)" "a \<in> snd ` set (snd p)"
    unfolding set_table_addrs by blast
  show "a \<in> snd ` set d \<union> set (table_addrs table)"
  proof (cases "p = (i, d)")
    case True
    then show ?thesis using p(2) by simp
  next
    case False
    then have "p \<in> set table" using p(1) set_update_subset [of i d table] by blast
    then show ?thesis using p(2) unfolding set_table_addrs by blast
  qed
qed

lemma lookup_addrs:
  "snd ` set (object_spread [spread_source (OrdinaryGetMetadata (map_of table) t)])
     \<subseteq> set (table_addrs table)"
proof (cases "OrdinaryGetMetadata (map_of table) t")
  case None
  then show ?thesis by (simp add: spread_source_def)
next
  case (Some d)
  from OrdinaryGetMetadata_Some [OF Some] obtain i where "map_of table i = Some d"
    by blast
  then have "(i, d) \<in> set table" by (rule map_of_SomeD)
  then have "snd ` set d \<subseteq> set (table_addrs table)" by (rule table_addrs_member)
  moreover have "snd ` set (object_spread [d]) \<subseteq> snd ` set d"
    using set_object_spread1 [of d] by (rule image_mono)
  ultimately show ?thesis by (simp add: Some spread_source_def)
qed

lemma merge_proto: "merge h dest ''__proto__'' opts = (dest, h)"
  by (simp add: merge_def)

lemma merge_Some:
  "key \<noteq> ''__proto__'' \<Longrightarrow> map_of dest key = Some a \<Longrightarrow>
   merge h dest key opts = (dest, baseMerge h a opts)"
  by (simp add: merge_def)

lemma merge_None:
  "key \<noteq> ''__proto__'' \<Longrightarrow> map_of dest key = None \<Longrightarrow>
   merge h dest key opts =
     (AList.update key (length h) dest, baseMerge (h @ [[]]) (length h) opts)"
  by (simp add: merge_def)

text \<open>
  A merge into a dictionary keeps the objects of the dictionaries within such a set,
  and writes to no object outside the set.
\<close>

lemma merge_grows:
  assumes m: "merge h dest key opts = (d', h')" and o: "owned rank A h"
    and dest: "snd ` set dest \<subseteq> A"
  shows "\<exists>rank' A'. grows rank A h rank' A' h' \<and> snd ` set d' \<subseteq> A' \<and>
           (\<forall>c<length h. c \<notin> A \<longrightarrow> h' ! c = h ! c)"
proof (cases "key = ''__proto__''")
  case True
  then have "d' = dest" "h' = h" using m by (simp_all add: merge_proto)
  then show ?thesis using grows_refl [OF o] dest by blast
next
  case False
  show ?thesis
  proof (cases "map_of dest key")
    case (Some a)
    then have d': "d' = dest" and h': "h' = baseMerge h a opts"
      using m False by (simp_all add: merge_Some)
    have "(key, a) \<in> set dest" using Some by (rule map_of_SomeD)
    then have "a \<in> snd ` set dest" by force
    then have a: "a \<in> A" using dest by blast
    from baseMerge_grows [OF o a, of opts] obtain rank' A' where
      g: "grows rank A h rank' A' h'" and k: "keeps rank A a h h'" unfolding h' by blast
    have "\<forall>c<length h. c \<notin> A \<longrightarrow> h' ! c = h ! c"
    proof (intro allI impI)
      fix c assume c: "c < length h" "c \<notin> A"
      then have "c \<noteq> a" using a by blast
      then show "h' ! c = h ! c" using k c unfolding keeps_def by blast
    qed
    moreover have "snd ` set d' \<subseteq> A'" using dest grows_subset [OF g] d' by blast
    ultimately show ?thesis using g by blast
  next
    case None
    then have d': "d' = AList.update key (length h) dest"
      and h': "h' = baseMerge (h @ [[]]) (length h) opts"
      using m False by (simp_all add: merge_None)
    let ?rank0 = "rank(length h := 0)"
    let ?A0 = "insert (length h) A"
    have g0: "grows rank A h ?rank0 ?A0 (h @ [[]])"
      by (rule fresh_grows [OF o]) (simp add: refs_def)
    have o0: "owned ?rank0 ?A0 (h @ [[]])" using g0 by (rule grows_owned)
    have a0: "length h \<in> ?A0" by simp
    from baseMerge_grows [OF o0 a0, of opts] obtain rank' A' where
      g1: "grows ?rank0 ?A0 (h @ [[]]) rank' A' h'"
      and k: "keeps ?rank0 ?A0 (length h) (h @ [[]]) h'" unfolding h' by blast
    have g: "grows rank A h rank' A' h'" using grows_trans [OF g0 g1] .
    have "snd ` set d' \<subseteq> insert (length h) (snd ` set dest)"
      unfolding d' using set_update_subset [of key "length h" dest] by force
    then have "snd ` set d' \<subseteq> ?A0" using dest by blast
    then have 1: "snd ` set d' \<subseteq> A'" using grows_subset [OF g1] by blast
    have 2: "\<forall>c<length h. c \<notin> A \<longrightarrow> h' ! c = h ! c"
    proof (intro allI impI)
      fix c assume c: "c < length h" "c \<notin> A"
      then have "c < length (h @ [[]])" "c \<noteq> length h" "c \<notin> ?A0" by simp_all
      then have "h' ! c = (h @ [[]]) ! c" using k unfolding keeps_def by blast
      then show "h' ! c = h ! c" using c(1) by (simp add: nth_append)
    qed
    show ?thesis using g 1 2 by blast
  qed
qed

lemma defineAttribute_eq:
  assumes "merge (objects s)
             (object_spread [spread_source (OrdinaryGetMetadata (map_of (MODEL_ATTRS_META_KEY s)) t)])
             k opts = (d', h')"
  shows "defineAttribute s t k opts =
           s\<lparr>objects := h', MODEL_ATTRS_META_KEY := AList.update (oid t) d' (MODEL_ATTRS_META_KEY s)\<rparr>"
  using assms by (simp add: defineAttribute_def Reflect_defineMetadata_def)

lemma defineAssociation_eq:
  assumes "merge (objects s)
             (object_spread [spread_source (OrdinaryGetMetadata (map_of (MODEL_ASSOCS_META_KEY s)) t)])
             k opts = (d', h')"
  shows "defineAssociation s t k opts =
           s\<lparr>objects := h', MODEL_ASSOCS_META_KEY := AList.update (oid t) d' (MODEL_ASSOCS_META_KEY s)\<rparr>"
  using assms by (simp add: defineAssociation_def Reflect_defineMetadata_def)

lemma wf_state_reaches:
  assumes "wf_state s"
  shows "reaches id {a. a < length (objects s)} s"
proof -
  have w1: "list_all (\<lambda>a. a < length (objects s)) (dict_addrs s)"
    and w2: "list_all (\<lambda>a. list_all (\<lambda>b. a < b \<and> b < length (objects s)) (refs (objects s ! a)))
               [0..<length (objects s)]"
    using assms unfolding wf_state_def by blast+
  have 1: "\<And>a. a \<in> set (dict_addrs s) \<Longrightarrow> a < length (objects s)"
    using w1 unfolding list_all_iff by blast
  have 2: "\<And>a b. a < length (objects s) \<Longrightarrow> b \<in> set (refs (objects s ! a)) \<Longrightarrow>
             a < b \<and> b < length (objects s)"
  proof -
    fix a b assume a: "a < length (objects s)" and b: "b \<in> set (refs (objects s ! a))"
    have "a \<in> set [0..<length (objects s)]" using a by simp
    then have "list_all (\<lambda>b. a < b \<and> b < length (objects s)) (refs (objects s ! a))"
      using w2 unfolding list_all_iff by blast
    then show "a < b \<and> b < length (objects s)" using b unfolding list_all_iff by blast
  qed
  have "owned id {a. a < length (objects s)} (objects s)"
  proof (rule ownedI)
    fix a assume "a \<in> {a. a < length (objects s)}"
    then show "a < length (objects s)" by simp
  next
    fix a b assume "a \<in> {a. a < length (objects s)}" and b: "b \<in> set (refs (objects s ! a))"
    then have "a < length (objects s)" by simp
    from 2 [OF this b] show "b \<in> {a. a < length (objects s)} \<and> id a < id b" by simp
  qed
  moreover have "set (dict_addrs s) \<subseteq> {a. a < length (objects s)}" using 1 by blast
  ultimately show ?thesis unfolding reaches_def by blast
qed

text \<open>
  What a call keeps: the objects the dictionaries reach stay within such a set, which
  grows by new objects only, and an allocated object outside the set is not written to.
\<close>

lemma define_step:
  assumes m: "merge (objects s) dest k opts = (d', h')"
    and r: "reaches rank A s"
    and dest: "snd ` set dest \<subseteq> set (dict_addrs s)"
    and s': "objects s' = h'" "set (dict_addrs s') \<subseteq> snd ` set d' \<union> set (dict_addrs s)"
  shows "\<exists>rank' A'. reaches rank' A' s' \<and> grows rank A (objects s) rank' A' (objects s') \<and>
           snd ` set d' \<subseteq> A' \<and>
           (\<forall>c<length (objects s). c \<notin> A \<longrightarrow> objects s' ! c = objects s ! c)"
proof -
  have o: "owned rank A (objects s)" and da: "set (dict_addrs s) \<subseteq> A"
    using r by (simp_all add: reaches_def)
  have "snd ` set dest \<subseteq> A" using dest da by blast
  from merge_grows [OF m o this] obtain rank' A' where
    g: "grows rank A (objects s) rank' A' h'" and d: "snd ` set d' \<subseteq> A'"
    and f: "\<forall>c<length (objects s). c \<notin> A \<longrightarrow> h' ! c = objects s ! c" by blast
  have "set (dict_addrs s') \<subseteq> A'" using s'(2) d da grows_subset [OF g] by blast
  then have "reaches rank' A' s'" using grows_owned [OF g] by (simp add: reaches_def s'(1))
  then show ?thesis using g d f s'(1) by blast
qed

lemma defineAttribute_step:
  assumes r: "reaches rank A s"
    and m: "merge (objects s)
             (object_spread [spread_source (OrdinaryGetMetadata (map_of (MODEL_ATTRS_META_KEY s)) t)])
             k opts = (d', h')"
  shows "\<exists>rank' A'. reaches rank' A' (defineAttribute s t k opts) \<and>
           grows rank A (objects s) rank' A' (objects (defineAttribute s t k opts)) \<and>
           snd ` set d' \<subseteq> A' \<and>
           (\<forall>c<length (objects s). c \<notin> A \<longrightarrow>
              objects (defineAttribute s t k opts) ! c = objects s ! c)"
proof -
  let ?dest = "object_spread [spread_source (OrdinaryGetMetadata (map_of (MODEL_ATTRS_META_KEY s)) t)]"
  let ?s' = "defineAttribute s t k opts"
  have e: "?s' = s\<lparr>objects := h',
             MODEL_ATTRS_META_KEY := AList.update (oid t) d' (MODEL_ATTRS_META_KEY s)\<rparr>"
    by (rule defineAttribute_eq [OF m])
  have 1: "objects ?s' = h'" by (simp add: e)
  have 3: "dict_addrs ?s' = table_addrs (AList.update (oid t) d' (MODEL_ATTRS_META_KEY s)) @
             table_addrs (MODEL_ASSOCS_META_KEY s)"
    by (simp add: e dict_addrs_def)
  have 4: "set (dict_addrs ?s') \<subseteq> snd ` set d' \<union> set (dict_addrs s)"
    unfolding 3 using table_addrs_update [of "oid t" d' "MODEL_ATTRS_META_KEY s"]
    by (auto simp add: dict_addrs_def)
  have 5: "snd ` set ?dest \<subseteq> set (dict_addrs s)"
    using lookup_addrs [of "MODEL_ATTRS_META_KEY s" t] by (auto simp add: dict_addrs_def)
  show ?thesis by (rule define_step [OF m r 5 1 4])
qed

lemma defineAssociation_step:
  assumes r: "reaches rank A s"
    and m: "merge (objects s)
             (object_spread [spread_source (OrdinaryGetMetadata (map_of (MODEL_ASSOCS_META_KEY s)) t)])
             k opts = (d', h')"
  shows "\<exists>rank' A'. reaches rank' A' (defineAssociation s t k opts) \<and>
           grows rank A (objects s) rank' A' (objects (defineAssociation s t k opts)) \<and>
           snd ` set d' \<subseteq> A' \<and>
           (\<forall>c<length (objects s). c \<notin> A \<longrightarrow>
              objects (defineAssociation s t k opts) ! c = objects s ! c)"
proof -
  let ?dest = "object_spread [spread_source (OrdinaryGetMetadata (map_of (MODEL_ASSOCS_META_KEY s)) t)]"
  let ?s' = "defineAssociation s t k opts"
  have e: "?s' = s\<lparr>objects := h',
             MODEL_ASSOCS_META_KEY := AList.update (oid t) d' (MODEL_ASSOCS_META_KEY s)\<rparr>"
    by (rule defineAssociation_eq [OF m])
  have 1: "objects ?s' = h'" by (simp add: e)
  have 3: "dict_addrs ?s' = table_addrs (MODEL_ATTRS_META_KEY s) @
             table_addrs (AList.update (oid t) d' (MODEL_ASSOCS_META_KEY s))"
    by (simp add: e dict_addrs_def)
  have 4: "set (dict_addrs ?s') \<subseteq> snd ` set d' \<union> set (dict_addrs s)"
    unfolding 3 using table_addrs_update [of "oid t" d' "MODEL_ASSOCS_META_KEY s"]
    by (auto simp add: dict_addrs_def)
  have 5: "snd ` set ?dest \<subseteq> set (dict_addrs s)"
    using lookup_addrs [of "MODEL_ASSOCS_META_KEY s" t] by (auto simp add: dict_addrs_def)
  show ?thesis by (rule define_step [OF m r 5 1 4])
qed

lemma append_step:
  assumes r: "reaches rank A s"
    and s': "objects s' = objects s @ xs" "dict_addrs s' = dict_addrs s"
  shows "reaches rank A s' \<and> grows rank A (objects s) rank A (objects s') \<and>
         (\<forall>c<length (objects s). c \<notin> A \<longrightarrow> objects s' ! c = objects s ! c)"
proof -
  have o: "owned rank A (objects s)" and da: "set (dict_addrs s) \<subseteq> A"
    using r by (simp_all add: reaches_def)
  have lt: "\<And>c. c \<in> A \<Longrightarrow> c < length (objects s)" using owned_length [OF o] .
  have o': "owned rank A (objects s @ xs)"
  proof (rule ownedI)
    fix c assume "c \<in> A"
    then show "c < length (objects s @ xs)" using lt by fastforce
  next
    fix c b assume c: "c \<in> A" and b: "b \<in> set (refs ((objects s @ xs) ! c))"
    have "b \<in> set (refs (objects s ! c))" using b lt [OF c] by (simp add: nth_append)
    then show "b \<in> A \<and> rank c < rank b" using owned_refs [OF o c] by blast
  qed
  have "reaches rank A s'" using o' da by (simp add: reaches_def s')
  moreover have "grows rank A (objects s) rank A (objects s')"
    using o' by (simp add: grows_def s'(1))
  moreover have "\<forall>c<length (objects s). c \<notin> A \<longrightarrow> objects s' ! c = objects s ! c"
    by (simp add: s'(1) nth_append)
  ultimately show ?thesis by blast
qed

lemma perform_step:
  assumes r: "reaches rank A s"
  shows "\<exists>rank' A'. reaches rank' A' (perform op s) \<and>
           grows rank A (objects s) rank' A' (objects (perform op s)) \<and>
           (\<forall>c<length (objects s). c \<notin> A \<longrightarrow> objects (perform op s) ! c = objects s ! c)"
proof -
  have same: ?thesis if "perform op s = s"
    using append_step [OF r, of s "[]"] that by auto
  have app: ?thesis if "objects (perform op s) = objects s @ xs"
    "dict_addrs (perform op s) = dict_addrs s" for xs
    using append_step [OF r that] by blast
  show ?thesis
  proof (cases op)
    case (DefineModelOptions c f)
    show ?thesis
    proof (cases "defineModelOptions s c f")
      case (Inl e)
      then show ?thesis using DefineModelOptions by (intro same) simp
    next
      case (Inr s')
      then obtain t x where s': "s' = s\<lparr>objects := objects s @ [x],
          MODEL_OPTIONS_META_KEY := AList.update (oid t) (length (objects s)) (MODEL_OPTIONS_META_KEY s)\<rparr>"
        by (auto simp add: defineModelOptions_def Reflect_defineMetadata_def
              split: sum.splits option.splits)
      have "objects (perform op s) = objects s @ [x]" "dict_addrs (perform op s) = dict_addrs s"
        by (simp_all add: DefineModelOptions Inr s' dict_addrs_def)
      then show ?thesis by (rule app)
    qed
  next
    case (DefineAttribute t k f)
    obtain d' h' where m: "merge (objects s)
             (object_spread [spread_source (OrdinaryGetMetadata (map_of (MODEL_ATTRS_META_KEY s)) t)])
             k f = (d', h')"
      by (cases "merge (objects s)
             (object_spread [spread_source (OrdinaryGetMetadata (map_of (MODEL_ATTRS_META_KEY s)) t)])
             k f")
    have "perform op s = defineAttribute s t k f" by (simp add: DefineAttribute)
    then show ?thesis using defineAttribute_step [OF r m] by metis
  next
    case (DefineAssociation t k f)
    obtain d' h' where m: "merge (objects s)
             (object_spread [spread_source (OrdinaryGetMetadata (map_of (MODEL_ASSOCS_META_KEY s)) t)])
             k f = (d', h')"
      by (cases "merge (objects s)
             (object_spread [spread_source (OrdinaryGetMetadata (map_of (MODEL_ASSOCS_META_KEY s)) t)])
             k f")
    have "perform op s = defineAssociation s t k f" by (simp add: DefineAssociation)
    then show ?thesis using defineAssociation_step [OF r m] by metis
  next
    case (DefineAttributeValidation t k v)
    show ?thesis
    proof (cases "defineAttributeValidation s t k v")
      case (Inl e)
      then show ?thesis using DefineAttributeValidation by (intro same) simp
    next
      case (Inr s')
      then obtain x where s': "s' = s\<lparr>ATTR_VALIDATIONS_META_KEY := x\<rparr>"
        by (auto simp add: defineAttributeValidation_def split: sum.splits)
      have "objects (perform op s) = objects s @ []" "dict_addrs (perform op s) = dict_addrs s"
        by (simp_all add: DefineAttributeValidation Inr s' dict_addrs_def)
      then show ?thesis by (rule app)
    qed
  next
    case (GetModelOptions c)
    show ?thesis
    proof (cases "getModelOptions s c")
      case (Inl e)
      then show ?thesis using GetModelOptions by (intro same) simp
    next
      case (Inr r')
      then obtain x where s': "r' = (length (objects s), s\<lparr>objects := objects s @ [x]\<rparr>)"
        by (auto simp add: getModelOptions_def split: sum.splits)
      have "objects (perform op s) = objects s @ [x]" "dict_addrs (perform op s) = dict_addrs s"
        by (simp_all add: GetModelOptions Inr s' dict_addrs_def)
      then show ?thesis by (rule app)
    qed
  next
    case (GetProperties c)
    show ?thesis
    proof (cases "getProperties s c")
      case (Inl e)
      then show ?thesis using GetProperties by (intro same) simp
    next
      case (Inr r')
      then obtain x where s': "r' = (length (property_maps s), s\<lparr>property_maps := property_maps s @ [x]\<rparr>)"
        by (auto simp add: getProperties_def Let_def split: sum.splits)
      have "objects (perform op s) = objects s @ []" "dict_addrs (perform op s) = dict_addrs s"
        by (simp_all add: GetProperties Inr s' dict_addrs_def)
      then show ?thesis by (rule app)
    qed
  qed
qed

lemma run_step:
  assumes "reaches rank A s"
  shows "\<exists>rank' A'. reaches rank' A' (run ops s) \<and>
           grows rank A (objects s) rank' A' (objects (run ops s)) \<and>
           (\<forall>c<length (objects s). c \<notin> A \<longrightarrow> objects (run ops s) ! c = objects s ! c)"
  using assms
proof (induction ops arbitrary: s rank A)
  case Nil
  then show ?case using append_step [OF Nil, of s "[]"] by (auto simp add: run_def)
next
  case (Cons op ops)
  have e: "run (op # ops) s = run ops (perform op s)" by (simp add: run_def)
  from perform_step [OF Cons.prems, of op] obtain rank1 A1 where
    r1: "reaches rank1 A1 (perform op s)"
    and g1: "grows rank A (objects s) rank1 A1 (objects (perform op s))"
    and f1: "\<forall>c<length (objects s). c \<notin> A \<longrightarrow> objects (perform op s) ! c = objects s ! c"
    by blast
  from Cons.IH [OF r1] obtain rank2 A2 where
    r2: "reaches rank2 A2 (run ops (perform op s))"
    and g2: "grows rank1 A1 (objects (perform op s)) rank2 A2 (objects (run ops (perform op s)))"
    and f2: "\<forall>c<length (objects (perform op s)). c \<notin> A1 \<longrightarrow>
               objects (run ops (perform op s)) ! c = objects (perform op s) ! c"
    by blast
  have g: "grows rank A (objects s) rank2 A2 (objects (run ops (perform op s)))"
    using grows_trans [OF g1 g2] .
  have "\<forall>c<length (objects s). c \<notin> A \<longrightarrow>
          objects (run ops (perform op s)) ! c = objects s ! c"
  proof (intro allI impI)
    fix c assume c: "c < length (objects s)" "c \<notin> A"
    have "c \<notin> A1" using grows_new [OF g1 _ c(1)] c(2) by blast
    moreover have "c < length (objects (perform op s))" using c(1) grows_length [OF g1] by simp
    ultimately have "objects (run ops (perform op s)) ! c = objects (perform op s) ! c"
      using f2 by blast
    then show "objects (run ops (perform op s)) ! c = objects s ! c" using f1 c by simp
  qed
  then show ?case unfolding e using r2 g by blast
qed

lemma wf_state_run:
  assumes "wf_state s0"
  shows "\<exists>rank A. reaches rank A (run ops s0)"
  using run_step [OF wf_state_reaches [OF assms], of ops] by blast

section \<open>Declaring an attribute twice\<close>








text \<open>The examples of the claim, and arrays, which are merged index by index.\<close>

lemma example_a_then_b:
  "attribute_options
     (defineAttribute
        (defineAttribute empty_state UserAccount_prototype ''x'' [(''a'', Leaf (Num 1))])
        UserAccount_prototype ''x'' [(''b'', Leaf (Num 2))]) UserAccount ''x''
     = Some [(''a'', Atom (Num 1)), (''b'', Atom (Num 2))]"
  by code_simp

lemma example_a_then_a:
  "attribute_options
     (defineAttribute
        (defineAttribute empty_state UserAccount_prototype ''x'' [(''a'', Leaf (Num 1))])
        UserAccount_prototype ''x'' [(''a'', Leaf (Num 2))]) UserAccount ''x''
     = Some [(''a'', Atom (Num 2))]"
  by code_simp

lemma example_type_then_required:
  "attribute_options
     (required (attr (Leaf (Str ''string'')) None empty_state UserAccount_prototype ''email'')
        UserAccount_prototype ''email'') UserAccount ''email''
     = Some [(''type'', Atom (Str ''string'')), (''optional'', Atom (Bool False))]"
  by code_simp

lemma example_arrays:
  "objects
     (defaultValue (array_literal [Leaf (Num 3)])
        (defaultValue (array_literal [Leaf (Num 1), Leaf (Num 2)]) empty_state
           UserAccount_prototype ''tags'')
        UserAccount_prototype ''tags'')
   = [[(''defaultValue'', ArrayAt 1)], [(''0'', Atom (Num 3)), (''1'', Atom (Num 2))]]"
  by code_simp

lemma example_proto_key:
  "getAttributes
     (defineAttribute empty_state UserAccount_prototype ''__proto__'' [(''a'', Leaf (Num 1))])
     UserAccount = Inr []"
  by code_simp

section \<open>Resolved descriptors\<close>

lemma perform_property_maps:
  assumes "p < length (property_maps s)"
  shows "p < length (property_maps (perform op s)) \<and>
         property_maps (perform op s) ! p = property_maps s ! p"
proof (cases op)
  case (DefineModelOptions c f)
  then show ?thesis using assms
    by (auto simp add: defineModelOptions_def split: sum.splits option.splits)
next
  case (DefineAttribute t k f)
  then show ?thesis using assms by (simp add: defineAttribute_def Let_def split: prod.splits)
next
  case (DefineAssociation t k f)
  then show ?thesis using assms by (simp add: defineAssociation_def Let_def split: prod.splits)
next
  case (DefineAttributeValidation t k v)
  then show ?thesis using assms
    by (auto simp add: defineAttributeValidation_def split: sum.splits)
next
  case (GetModelOptions c)
  then show ?thesis using assms
    by (auto simp add: getModelOptions_def split: sum.splits)
next
  case (GetProperties c)
  then show ?thesis using assms
    by (auto simp add: getProperties_def Let_def nth_append split: sum.splits)
qed

lemma run_property_maps:
  "p < length (property_maps s) \<Longrightarrow>
   p < length (property_maps (run ops s)) \<and> property_maps (run ops s) ! p = property_maps s ! p"
proof (induction ops arbitrary: s)
  case Nil
  then show ?case by (simp add: run_def)
next
  case (Cons op ops)
  have r: "run (op # ops) s = run ops (perform op s)" by (simp add: run_def)
  show ?case
    unfolding r using Cons.IH [of "perform op s"] perform_property_maps [OF Cons.prems, of op]
    by simp
qed

text \<open>
  C9. The claim: a resolved descriptor is an independent snapshot, which later
  declarations leave unchanged. Amended, for a state that calls reach from a
  well-formed one: the record \<^verbatim>\<open>getModelOptions\<close> returns and the mapping
  \<^verbatim>\<open>getProperties\<close> returns are new objects whose own properties no later sequence of
  calls on the registry changes: the record stays allocated with the fields and the
  values it had, and the mapping keeps its keys, each with the property it had, of the
  same name and with the same value as its type. A value that is an object is a
  reference and is not copied, so nothing is said of what such an object holds.
\<close>

theorem snapshots_are_independent:
  assumes "wf_state s0"
  shows "(getModelOptions (run pre s0) ctor = Inr (a, s') \<longrightarrow>
            a < length (objects (run ops s')) \<and> objects (run ops s') ! a = objects s' ! a) \<and>
         (getProperties (run pre s0) ctor = Inr (p, s') \<longrightarrow>
            p < length (property_maps (run ops s')) \<and>
            property_maps (run ops s') ! p = property_maps s' ! p)"
proof (intro conjI impI)
  assume g: "getModelOptions (run pre s0) ctor = Inr (a, s')"
  let ?s = "run pre s0"
  from wf_state_run [OF assms, of pre] obtain rank A where r: "reaches rank A ?s" by blast
  from g obtain x where a: "a = length (objects ?s)" and s': "s' = ?s\<lparr>objects := objects ?s @ [x]\<rparr>"
    by (auto simp add: getModelOptions_def split: sum.splits)
  have 1: "objects s' = objects ?s @ [x]" and 2: "dict_addrs s' = dict_addrs ?s"
    by (simp_all add: s' dict_addrs_def)
  have r': "reaches rank A s'" using append_step [OF r 1 2] by blast
  have "owned rank A (objects ?s)" using r by (simp add: reaches_def)
  then have na: "a \<notin> A" using owned_length [of rank A "objects ?s" a] a by auto
  have al: "a < length (objects s')" by (simp add: 1 a)
  from run_step [OF r', of ops] obtain rank' A' where
    gr: "grows rank A (objects s') rank' A' (objects (run ops s'))"
    and f: "\<forall>c<length (objects s'). c \<notin> A \<longrightarrow> objects (run ops s') ! c = objects s' ! c"
    by blast
  show "a < length (objects (run ops s'))" using al grows_length [OF gr] by simp
  show "objects (run ops s') ! a = objects s' ! a" using f al na by blast
next
  assume g: "getProperties (run pre s0) ctor = Inr (p, s')"
  then have "p < length (property_maps s')"
    by (auto simp add: getProperties_def Let_def split: sum.splits)
  then show "p < length (property_maps (run ops s'))"
    "property_maps (run ops s') ! p = property_maps s' ! p"
    using run_property_maps by blast+
qed

theorem snapshots_are_independent_witness:
  "wf_state account_state \<and>
   getModelOptions (run [] account_state) UserAccount =
     Inr (3, account_state\<lparr>objects := objects account_state @ [[(''name'', Atom (Str ''userAccount''))]]\<rparr>) \<and>
   objects (run later_calls
     (account_state\<lparr>objects := objects account_state @ [[(''name'', Atom (Str ''userAccount''))]]\<rparr>)) ! 3
     = [(''name'', Atom (Str ''userAccount''))] \<and>
   getProperties (run [] account_state) UserAccount =
     Inr (0, account_state\<lparr>property_maps :=
               [[(''email'', Attribute (Atom (Str ''string'')) ''email''),
                 (''posts'', Association (Atom (Num 1)) ''posts'')]]\<rparr>) \<and>
   property_maps (run later_calls
     (account_state\<lparr>property_maps :=
               [[(''email'', Attribute (Atom (Str ''string'')) ''email''),
                 (''posts'', Association (Atom (Num 1)) ''posts'')]]\<rparr>)) ! 0
     = [(''email'', Attribute (Atom (Str ''string'')) ''email''),
        (''posts'', Association (Atom (Num 1)) ''posts'')]"
proof -
  let ?s1 = "account_state\<lparr>objects := objects account_state @ [[(''name'', Atom (Str ''userAccount''))]]\<rparr>"
  let ?s2 = "account_state\<lparr>property_maps :=
               [[(''email'', Attribute (Atom (Str ''string'')) ''email''),
                 (''posts'', Association (Atom (Num 1)) ''posts'')]]\<rparr>"
  have w: "wf_state account_state" by code_simp
  have g: "getModelOptions (run [] account_state) UserAccount = Inr (3, ?s1)" by code_simp
  have h: "getProperties (run [] account_state) UserAccount = Inr (0, ?s2)" by code_simp
  have o: "objects ?s1 ! 3 = [(''name'', Atom (Str ''userAccount''))]" by code_simp
  have q: "property_maps ?s2 ! 0 = [(''email'', Attribute (Atom (Str ''string'')) ''email''),
                 (''posts'', Association (Atom (Num 1)) ''posts'')]" by simp
  show ?thesis
    using w g h
      snapshots_are_independent [OF w, of "[]" UserAccount 3 ?s1 later_calls 0]
      snapshots_are_independent [OF w, of "[]" UserAccount 3 ?s2 later_calls 0]
    by (simp only: o q simp_thms)
qed

text \<open>
  The claim fails for an attribute whose type is a plain object. The property that
  \<^verbatim>\<open>getProperties\<close> returns for \<^verbatim>\<open>email\<close> refers to the type object at address 1,
  which holds \<^verbatim>\<open>{type: 'string'}\<close>; a later declaration of \<^verbatim>\<open>email\<close> with another
  type object is merged into that object, which then holds \<^verbatim>\<open>{type: 'text'}\<close>.
\<close>

theorem resolved_type_is_shared:
  "getProperties typed_state UserAccount =
     Inr (0, typed_state\<lparr>property_maps := [[(''email'', Attribute (ObjectAt 1) ''email'')]]\<rparr>) \<and>
   objects (typed_state\<lparr>property_maps := [[(''email'', Attribute (ObjectAt 1) ''email'')]]\<rparr>) ! 1
     = [(''type'', Atom (Str ''string''))] \<and>
   property_maps
     (run [DefineAttribute UserAccount_prototype ''email'' [(''type'', TEXT)]]
        (typed_state\<lparr>property_maps := [[(''email'', Attribute (ObjectAt 1) ''email'')]]\<rparr>)) ! 0
     = [(''email'', Attribute (ObjectAt 1) ''email'')] \<and>
   objects
     (run [DefineAttribute UserAccount_prototype ''email'' [(''type'', TEXT)]]
        (typed_state\<lparr>property_maps := [[(''email'', Attribute (ObjectAt 1) ''email'')]]\<rparr>)) ! 1
     = [(''type'', Atom (Str ''text''))]"
  by code_simp

text \<open>What the later declarations change is seen by resolving again.\<close>

lemma later_calls_observed:
  "objects (run later_calls account_state) =
     [[(''type'', Atom (Str ''text''))],
      [(''type'', Atom (Num 1)), (''target'', Atom (Reference 9))],
      [(''name'', Atom (Str ''userAccount''))], [(''name'', Atom (Str ''account''))]] \<and>
   (case getModelOptions (run later_calls account_state) UserAccount of
      Inl e \<Rightarrow> False
    | Inr (a, s') \<Rightarrow> a = 4 \<and> objects s' ! a = [(''name'', Atom (Str ''account''))]) \<and>
   (case getProperties (run later_calls account_state) UserAccount of
      Inl e \<Rightarrow> False
    | Inr (p, s') \<Rightarrow>
        property_maps s' ! p = [(''email'', Attribute (Atom (Str ''text'')) ''email''),
                                (''posts'', Association (Atom (Num 1)) ''posts'')])"
  by code_simp

section \<open>The targets of associations\<close>

lemma get_blank_target:
  "get (blank_target obj) k = (if k = ''target'' then Atom Undefined else get obj k)"
proof -
  have "map_of (blank_target obj) k =
          map_option (\<lambda>v. if k = ''target'' then Atom Undefined else v) (map_of obj k)"
    by (induction obj) (auto simp add: blank_target_def)
  then show ?thesis by (simp add: get_def split: option.splits)
qed

lemma same_except_targets_type:
  assumes "same_except_targets s1 s2"
  shows "get (deref (objects s1) a) ''type'' = get (deref (objects s2) a) ''type''"
proof (cases "a < length (objects s1)")
  case False
  then show ?thesis using assms by (simp add: same_except_targets_def deref_def)
next
  case True
  have l: "length (objects s1) = length (objects s2)"
    using assms by (simp add: same_except_targets_def)
  have "blank_target (objects s1 ! a) = blank_target (objects s2 ! a) \<or>
        objects s1 ! a = objects s2 ! a"
  proof -
    have "if a \<in> set (assoc_addrs s1)
          then blank_target (objects s1 ! a) = blank_target (objects s2 ! a)
          else objects s1 ! a = objects s2 ! a"
      using assms True by (simp add: same_except_targets_def list_all_iff)
    then show ?thesis by (simp split: if_splits)
  qed
  then have "get (blank_target (objects s1 ! a)) ''type'' = get (blank_target (objects s2 ! a)) ''type''"
    by auto
  then show ?thesis using True l by (simp add: get_blank_target deref_def)
qed

text \<open>
  C7. A target, be it a class or a resolver function, is a reference that
  \<^verbatim>\<open>getProperties\<close> never reads or calls: on two states that are the same except for
  the targets of association records it raises on both, or returns the same address and
  the same property mapping on both, and its only effect on either is the new mapping.
\<close>

theorem getProperties_ignores_targets:
  assumes "same_except_targets s1 s2"
  shows "(getProperties s1 ctor = Inl TypeError \<and> getProperties s2 ctor = Inl TypeError) \<or>
         (\<exists>p props.
            getProperties s1 ctor = Inr (p, s1\<lparr>property_maps := property_maps s1 @ [props]\<rparr>) \<and>
            getProperties s2 ctor = Inr (p, s2\<lparr>property_maps := property_maps s2 @ [props]\<rparr>))"
proof -
  have ga: "getAttributes s1 ctor = getAttributes s2 ctor"
    and gs: "getAssociations s1 ctor = getAssociations s2 ctor"
    and pm: "property_maps s1 = property_maps s2"
    using assms by (simp_all add: same_except_targets_def getAttributes_def getAssociations_def)
  have ty: "\<And>a. get (deref (objects s1) a) ''type'' = get (deref (objects s2) a) ''type''"
    by (rule same_except_targets_type [OF assms])
  show ?thesis
  proof (cases "getAttributes s2 ctor")
    case (Inl e)
    then show ?thesis by (cases e) (simp add: getProperties_def ga)
  next
    case attrs: (Inr attrs)
    show ?thesis
    proof (cases "getAssociations s2 ctor")
      case (Inl e)
      then show ?thesis by (cases e) (simp add: getProperties_def ga gs attrs)
    next
      case (Inr assocs)
      let ?props = "fold (\<lambda>key props.
                            AList.update key
                              (Association (get (deref (objects s2) (the (map_of assocs key))) ''type'') key)
                              props)
                      (Object_keys assocs)
                      (fold (\<lambda>key props.
                               AList.update key
                                 (Attribute (get (deref (objects s2) (the (map_of attrs key))) ''type'') key)
                                 props)
                         (Object_keys attrs) [])"
      have 1: "getProperties s1 ctor =
                 Inr (length (property_maps s1), s1\<lparr>property_maps := property_maps s1 @ [?props]\<rparr>)"
        by (simp add: getProperties_def ga gs attrs Inr ty Let_def)
      have 2: "getProperties s2 ctor =
                 Inr (length (property_maps s1), s2\<lparr>property_maps := property_maps s2 @ [?props]\<rparr>)"
        by (simp add: getProperties_def attrs Inr pm Let_def)
      show ?thesis using 1 2 by blast
    qed
  qed
qed

theorem getProperties_ignores_targets_witness:
  "same_except_targets profile_state profile_state_other_target \<and>
   profile_state \<noteq> profile_state_other_target \<and>
   (\<exists>p props.
      getProperties profile_state UserAccount =
        Inr (p, profile_state\<lparr>property_maps := property_maps profile_state @ [props]\<rparr>) \<and>
      getProperties profile_state_other_target UserAccount =
        Inr (p, profile_state_other_target\<lparr>property_maps :=
                  property_maps profile_state_other_target @ [props]\<rparr>))"
proof -
  have r: "same_except_targets profile_state profile_state_other_target" by code_simp
  have d: "profile_state \<noteq> profile_state_other_target" by code_simp
  have n: "getProperties profile_state UserAccount \<noteq> Inl TypeError" by code_simp
  show ?thesis
    using r d n getProperties_ignores_targets [OF r, of UserAccount] by blast
qed

end
